theory Spec2Isabelle
  imports Main "HOL-Library.Word"
begin

section \<open>QSBR: data model\<close>

text \<open>
  The epoch type is \<^verbatim>\<open>unsigned long\<close>, and the source asserts statically that it is
  eight bytes wide, so an epoch is a 64-bit word: addition wraps around, comparison is
  unsigned.  Per-thread records live in dynamically allocated memory; a pointer to one
  is an address, \<^verbatim>\<open>NULL\<close> is \<open>None\<close>.  Threads are named by numbers.
\<close>

type_synonym qsbr_epoch_t = "64 word"
type_synonym addr = nat
type_synonym tid = nat

text \<open>\<^verbatim>\<open>struct qsbr_tls\<close>: the local epoch and the link to the next record.\<close>

record qsbr_tls =
  local_epoch :: qsbr_epoch_t
  "next" :: "addr option"

text \<open>
  \<^verbatim>\<open>struct qsbr\<close>: the global epoch, the thread-local-storage key and the head of the
  registry list (the field \<^verbatim>\<open>list\<close> of the source).  The key is modelled by what
  \<^verbatim>\<open>pthread_getspecific\<close> returns for it in each thread.
\<close>

record qsbr =
  global_epoch :: qsbr_epoch_t
  tls_key :: "tid \<Rightarrow> addr option"
  list_head :: "addr option"

text \<open>
  The state the operations work on: the instance together with the memory that holds
  the per-thread records.  An address that is not allocated (never returned by
  \<^verbatim>\<open>malloc\<close>, or freed since) maps to \<open>None\<close>.
\<close>

record qstate = qsbr +
  heap :: "addr \<Rightarrow> qsbr_tls option"

text \<open>
  The outcomes of a call other than success.  \<open>ENOMEM\<close> is the error value that
  \<^verbatim>\<open>qsbr_register\<close> returns.  The other two end the call without a result:
  \<open>AssertFail\<close> is a failed \<^verbatim>\<open>ASSERT\<close>, \<open>MemFault\<close> is an access to (or a release
  of) memory that is not allocated, which C leaves undefined.
\<close>

datatype error = ENOMEM | AssertFail | MemFault

section \<open>QSBR: operations\<close>

text \<open>
  \<^verbatim>\<open>calloc(1, sizeof(qsbr_t))\<close> yields an instance of zero bytes; a fresh key holds
  \<^verbatim>\<open>NULL\<close> in every thread.
\<close>

definition calloc_qsbr :: qstate where
  "calloc_qsbr = \<lparr>global_epoch = 0, tls_key = (\<lambda>_. None), list_head = None, heap = (\<lambda>_. None)\<rparr>"

text \<open>
  \<^verbatim>\<open>qsbr_create\<close>.  The two arguments say whether \<^verbatim>\<open>calloc\<close> and
  \<^verbatim>\<open>pthread_key_create\<close> succeed; the result \<open>None\<close> is \<^verbatim>\<open>NULL\<close>.
\<close>

definition qsbr_create :: "bool \<Rightarrow> bool \<Rightarrow> qstate option" where
  "qsbr_create calloc_ok key_ok =
     (if \<not> calloc_ok then None
      else if \<not> key_ok then None
      else Some (calloc_qsbr\<lparr>global_epoch := 2\<rparr>))"

text \<open>
  \<^verbatim>\<open>qsbr_unregister\<close>: the caller's record is released and its key cleared.  Nothing
  else is written; \<^verbatim>\<open>free(NULL)\<close> does nothing.
\<close>

definition qsbr_unregister :: "qstate \<Rightarrow> tid \<Rightarrow> error + qstate" where
  "qsbr_unregister s tid =
     (case tls_key s tid of
        None \<Rightarrow> Inr s
      | Some t \<Rightarrow>
          (case heap s t of
             None \<Rightarrow> Inl MemFault
           | Some _ \<Rightarrow> Inr (s\<lparr>tls_key := (tls_key s)(tid := None), heap := (heap s)(t := None)\<rparr>)))"

text \<open>
  \<^verbatim>\<open>qsbr_destroy\<close> deletes the key and frees the instance.  Deleting a key runs no
  destructor, so what is left is the memory with the per-thread records in it.
\<close>

definition qsbr_destroy :: "qstate \<Rightarrow> (addr \<Rightarrow> qsbr_tls option)" where
  "qsbr_destroy s = heap s"

text \<open>
  Modelled from the spec: \<^verbatim>\<open>atomic_compare_exchange_weak\<close> is a macro of \<^verbatim>\<open>utils.h\<close>,
  which is not among the sources.  It is read as the compare-and-swap that its name and
  the specification ("insertion is lock-free via compare-and-swap at the head") say:
  the head is replaced by the new pointer if it still is the value read before, and the
  macro says whether it was.

  \<open>push_record\<close> is the tail of \<^verbatim>\<open>qsbr_register\<close>: the record at \<open>t\<close> is cleared by
  \<^verbatim>\<open>memset\<close>, its link is set to the current head and the head is swung to it.  The
  loop repeats while the compare-and-swap fails; it is modelled by its successful
  round, in which no other thread has changed the head since it was read.
\<close>

definition push_record :: "addr \<Rightarrow> qstate \<Rightarrow> qstate" where
  "push_record t s =
     s\<lparr>list_head := Some t,
       heap := (heap s)(t \<mapsto> \<lparr>local_epoch = 0, next = list_head s\<rparr>)\<rparr>"

text \<open>
  \<^verbatim>\<open>qsbr_register\<close>.  The argument \<open>m\<close> is what \<^verbatim>\<open>malloc\<close> returns if it is called:
  \<open>None\<close> when the allocation fails, otherwise the address of the new block.
  \<^verbatim>\<open>malloc\<close> is called only when the caller's key holds \<^verbatim>\<open>NULL\<close>; a pointer found
  in the key is used again.  (\<^verbatim>\<open>__predict_false\<close> is a hint to the compiler.)
\<close>

definition qsbr_register :: "qstate \<Rightarrow> tid \<Rightarrow> addr option \<Rightarrow> error + qstate" where
  "qsbr_register s tid m =
     (case tls_key s tid of
        None \<Rightarrow>
          (case m of
             None \<Rightarrow> Inl ENOMEM
           | Some a \<Rightarrow> Inr (push_record a (s\<lparr>tls_key := (tls_key s)(tid \<mapsto> a)\<rparr>)))
      | Some t \<Rightarrow>
          (case heap s t of
             None \<Rightarrow> Inl MemFault
           | Some _ \<Rightarrow> Inr (push_record t s)))"

text \<open>
  Modelled from the spec: the macro \<^verbatim>\<open>ASSERT\<close> comes from \<^verbatim>\<open>utils.h\<close>, which is not
  among the sources.  The specification says that a call by a thread without a record
  "fails hard (assertion)", and that is how \<^verbatim>\<open>ASSERT(t != NULL)\<close> is read here.  (The
  build compiles assertions out unless \<^verbatim>\<open>DEBUG\<close> is set; the statement after the
  assertion then reads or writes through \<^verbatim>\<open>NULL\<close>, so the call does not return
  normally in that case either.)

  \<open>tls_record\<close> is the common prologue of the per-thread operations: fetch the caller's
  pointer, assert that it is not \<^verbatim>\<open>NULL\<close>, and reach the record through it.
\<close>

definition tls_record :: "qstate \<Rightarrow> tid \<Rightarrow> error + (addr \<times> qsbr_tls)" where
  "tls_record s tid =
     (case tls_key s tid of
        None \<Rightarrow> Inl AssertFail
      | Some t \<Rightarrow>
          (case heap s t of
             None \<Rightarrow> Inl MemFault
           | Some r \<Rightarrow> Inr (t, r)))"

text \<open>
  \<^verbatim>\<open>qsbr_checkpoint\<close>: the caller's local epoch becomes the global epoch.  The fences
  (\<^verbatim>\<open>atomic_thread_fence\<close>) order memory accesses between threads; they change no
  value, and every call is modelled as one step on the shared state.
\<close>

definition qsbr_checkpoint :: "qstate \<Rightarrow> tid \<Rightarrow> error + qstate" where
  "qsbr_checkpoint s tid =
     (case tls_record s tid of
        Inl e \<Rightarrow> Inl e
      | Inr (t, r) \<Rightarrow> Inr (s\<lparr>heap := (heap s)(t \<mapsto> r\<lparr>local_epoch := global_epoch s\<rparr>)\<rparr>))"

text \<open>\<^verbatim>\<open>qsbr_get_epoch\<close>: the caller's local epoch.\<close>

definition qsbr_get_epoch :: "qstate \<Rightarrow> tid \<Rightarrow> error + qsbr_epoch_t" where
  "qsbr_get_epoch s tid =
     (case tls_record s tid of
        Inl e \<Rightarrow> Inl e
      | Inr (t, r) \<Rightarrow> Inr (local_epoch r))"

text \<open>
  Modelled from the spec: \<^verbatim>\<open>atomic_fetch_add\<close> is a macro of \<^verbatim>\<open>utils.h\<close>, which is
  not among the sources.  It is read as the fetch-and-add that its name and the
  specification ("atomically increment the global epoch and return the new value")
  say: it stores the old value plus the increment and returns the old value.

  \<^verbatim>\<open>qsbr_barrier\<close> is \<^verbatim>\<open>atomic_fetch_add(&qs->global_epoch, 1) + 1\<close>; both additions
  are on \<^verbatim>\<open>unsigned long\<close>.  The result is the returned epoch and the new state.
\<close>

definition qsbr_barrier :: "qstate \<Rightarrow> qsbr_epoch_t \<times> qstate" where
  "qsbr_barrier s =
     (let old = global_epoch s
      in (old + 1, s\<lparr>global_epoch := old + 1\<rparr>))"

text \<open>
  The loop of \<^verbatim>\<open>qsbr_sync\<close>, from the pointer \<open>t\<close> on.  It follows the links for as
  long as they lead somewhere, so it need not return: \<open>None\<close> is the run that goes on
  for ever.  A record that is not allocated cannot be read.
\<close>

partial_function (option) sync_scan ::
  "(addr \<Rightarrow> qsbr_tls option) \<Rightarrow> qsbr_epoch_t \<Rightarrow> addr option \<Rightarrow> (error + bool) option" where
  "sync_scan h target t =
     (case t of
        None \<Rightarrow> Some (Inr True)
      | Some a \<Rightarrow>
          (case h a of
             None \<Rightarrow> Some (Inl MemFault)
           | Some r \<Rightarrow>
               if local_epoch r \<noteq> 1 \<and> local_epoch r < target then Some (Inr False)
               else sync_scan h target (next r)))"

text \<open>\<^verbatim>\<open>qsbr_sync\<close>: the caller's checkpoint, then the scan from the head of the list.\<close>

definition qsbr_sync :: "qstate \<Rightarrow> tid \<Rightarrow> qsbr_epoch_t \<Rightarrow> (error + (bool \<times> qstate)) option" where
  "qsbr_sync s tid target =
     (case qsbr_checkpoint s tid of
        Inl e \<Rightarrow> Some (Inl e)
      | Inr s1 \<Rightarrow>
          (case sync_scan (heap s1) target (list_head s1) of
             None \<Rightarrow> None
           | Some (Inl e) \<Rightarrow> Some (Inl e)
           | Some (Inr b) \<Rightarrow> Some (Inr (b, s1))))"

text \<open>\<^verbatim>\<open>qsbr_thread_offline\<close>: the caller's local epoch becomes 1.\<close>

definition qsbr_thread_offline :: "qstate \<Rightarrow> tid \<Rightarrow> error + qstate" where
  "qsbr_thread_offline s tid =
     (case tls_record s tid of
        Inl e \<Rightarrow> Inl e
      | Inr (t, r) \<Rightarrow> Inr (s\<lparr>heap := (heap s)(t \<mapsto> r\<lparr>local_epoch := 1\<rparr>)\<rparr>))"

text \<open>\<^verbatim>\<open>qsbr_thread_online\<close>: the caller's local epoch becomes the global epoch.\<close>

definition qsbr_thread_online :: "qstate \<Rightarrow> tid \<Rightarrow> error + qstate" where
  "qsbr_thread_online s tid =
     (case tls_record s tid of
        Inl e \<Rightarrow> Inl e
      | Inr (t, r) \<Rightarrow> Inr (s\<lparr>heap := (heap s)(t \<mapsto> r\<lparr>local_epoch := global_epoch s\<rparr>)\<rparr>))"

text \<open>
  \<^verbatim>\<open>qsbr_wait\<close>: a barrier, then \<^verbatim>\<open>qsbr_sync\<close> on the new epoch until it returns
  true.  \<open>wait_loop\<close> is the loop run on its own, with no step of another thread between
  two polls (\<^verbatim>\<open>nanosleep\<close> changes nothing in the instance); a run in which other
  threads make progress between polls is a \<open>Barrier\<close> followed by \<open>Sync\<close> calls in a
  trace, see \<open>run\<close> below.
\<close>

partial_function (option) wait_loop ::
  "qstate \<Rightarrow> tid \<Rightarrow> qsbr_epoch_t \<Rightarrow> (error + qstate) option" where
  "wait_loop s tid new_epoch =
     (case qsbr_sync s tid new_epoch of
        None \<Rightarrow> None
      | Some (Inl e) \<Rightarrow> Some (Inl e)
      | Some (Inr (b, s1)) \<Rightarrow> if b then Some (Inr s1) else wait_loop s1 tid new_epoch)"

definition qsbr_wait :: "qstate \<Rightarrow> tid \<Rightarrow> (error + qstate) option" where
  "qsbr_wait s tid =
     (case qsbr_barrier s of
        (new_epoch, s1) \<Rightarrow> wait_loop s1 tid new_epoch)"

section \<open>Calls and traces\<close>

text \<open>
  The calls of the interface on an existing instance, each with the calling thread
  (the barrier reads no per-thread data) and its arguments; for \<open>Register\<close> also the
  result of \<^verbatim>\<open>malloc\<close>.  Threads are interleaved call by call: each call is one
  step on the shared state.
\<close>

datatype call =
    Register tid "addr option"
  | Unregister tid
  | Checkpoint tid
  | GetEpoch tid
  | Barrier
  | Wait tid
  | Sync tid qsbr_epoch_t
  | ThreadOffline tid
  | ThreadOnline tid

text \<open>
  \<open>exec s c\<close> is the state in which the call \<open>c\<close> returns to its caller, and \<open>None\<close> when
  it does not return (an assertion fails, memory that is not allocated is touched, or
  a loop runs for ever).  A \<^verbatim>\<open>qsbr_register\<close> that returns \<open>ENOMEM\<close> has written nothing.
\<close>

definition returned :: "error + qstate \<Rightarrow> qstate option" where
  "returned x = (case x of Inl e \<Rightarrow> None | Inr s \<Rightarrow> Some s)"

fun exec :: "qstate \<Rightarrow> call \<Rightarrow> qstate option" where
  "exec s (Register tid m) =
     (case qsbr_register s tid m of
        Inl e \<Rightarrow> (if e = ENOMEM then Some s else None)
      | Inr s' \<Rightarrow> Some s')"
| "exec s (Unregister tid) = returned (qsbr_unregister s tid)"
| "exec s (Checkpoint tid) = returned (qsbr_checkpoint s tid)"
| "exec s (GetEpoch tid) =
     (case qsbr_get_epoch s tid of Inl e \<Rightarrow> None | Inr e \<Rightarrow> Some s)"
| "exec s Barrier = Some (snd (qsbr_barrier s))"
| "exec s (Wait tid) =
     (case qsbr_wait s tid of None \<Rightarrow> None | Some x \<Rightarrow> returned x)"
| "exec s (Sync tid target) =
     (case qsbr_sync s tid target of
        None \<Rightarrow> None
      | Some (Inl e) \<Rightarrow> None
      | Some (Inr (b, s')) \<Rightarrow> Some s')"
| "exec s (ThreadOffline tid) = returned (qsbr_thread_offline s tid)"
| "exec s (ThreadOnline tid) = returned (qsbr_thread_online s tid)"

text \<open>A trace: the calls are made one after the other, each from the state the last left.\<close>

fun run :: "qstate \<Rightarrow> call list \<Rightarrow> qstate option" where
  "run s [] = Some s"
| "run s (c # cs) = (case exec s c of None \<Rightarrow> None | Some s' \<Rightarrow> run s' cs)"

text \<open>The calls that execute the fetch-and-add on the global epoch.\<close>

fun advances :: "call \<Rightarrow> bool" where
  "advances Barrier = True"
| "advances (Wait tid) = True"
| "advances c = False"

text \<open>The thread that makes a call; the barrier can be issued by any thread.\<close>

fun caller :: "call \<Rightarrow> tid option" where
  "caller (Register tid m) = Some tid"
| "caller (Unregister tid) = Some tid"
| "caller (Checkpoint tid) = Some tid"
| "caller (GetEpoch tid) = Some tid"
| "caller Barrier = None"
| "caller (Wait tid) = Some tid"
| "caller (Sync tid target) = Some tid"
| "caller (ThreadOffline tid) = Some tid"
| "caller (ThreadOnline tid) = Some tid"

section \<open>The registry as a list\<close>

text \<open>
  \<open>chain h p as\<close>: starting from the pointer \<open>p\<close>, the links of the memory \<open>h\<close> lead
  through the allocated records at the addresses \<open>as\<close>, in this order, and then to
  \<^verbatim>\<open>NULL\<close>.
\<close>

fun chain :: "(addr \<Rightarrow> qsbr_tls option) \<Rightarrow> addr option \<Rightarrow> addr list \<Rightarrow> bool" where
  "chain h p [] = (p = None)"
| "chain h p (a # as) =
     (p = Some a \<and> (case h a of None \<Rightarrow> False | Some r \<Rightarrow> chain h (next r) as))"

text \<open>\<open>walk h p n\<close>: the pointer reached from \<open>p\<close> after following \<open>n\<close> links.\<close>

fun walk :: "(addr \<Rightarrow> qsbr_tls option) \<Rightarrow> addr option \<Rightarrow> nat \<Rightarrow> addr option" where
  "walk h p 0 = p"
| "walk h p (Suc n) =
     (case p of
        None \<Rightarrow> None
      | Some a \<Rightarrow> (case h a of None \<Rightarrow> None | Some r \<Rightarrow> walk h (next r) n))"

section \<open>Runs that only add to the registry\<close>

text \<open>
  \<open>keys_ok s\<close>: every pointer held in the key points to allocated memory, and no two
  threads hold the same pointer.  \<^verbatim>\<open>qsbr_register\<close> stores in the key the block that
  \<^verbatim>\<open>malloc\<close> has just returned, and \<^verbatim>\<open>qsbr_unregister\<close> clears the key when it
  frees the block.
\<close>

definition keys_ok :: "qstate \<Rightarrow> bool" where
  "keys_ok s \<longleftrightarrow>
     (\<forall>u p. tls_key s u = Some p \<longrightarrow> heap s p \<noteq> None)
     \<and> (\<forall>u v p. tls_key s u = Some p \<and> tls_key s v = Some p \<longrightarrow> u = v)"

text \<open>
  \<open>fresh_linked tid t s\<close>: the record of thread \<open>tid\<close> is at \<open>t\<close>, holds local epoch 0
  and can be reached from the head of the registry.
\<close>

definition fresh_linked :: "tid \<Rightarrow> addr \<Rightarrow> qstate \<Rightarrow> bool" where
  "fresh_linked tid t s \<longleftrightarrow>
     keys_ok s \<and> tls_key s tid = Some t
     \<and> map_option local_epoch (heap s t) = Some 0
     \<and> (\<exists>n. walk (heap s) (list_head s) n = Some t)"

text \<open>
  A call that leaves the registry append-only: it frees no record (an
  \<^verbatim>\<open>qsbr_unregister\<close> only by a thread that has none), it pushes no record that is
  linked already (a \<^verbatim>\<open>qsbr_register\<close> only by a thread that has none), and
  \<^verbatim>\<open>malloc\<close> returns memory that is not allocated.  \<open>append_only s cs\<close> says so of
  every call of the trace \<open>cs\<close> run from \<open>s\<close>.
\<close>

fun append_only_call :: "qstate \<Rightarrow> call \<Rightarrow> bool" where
  "append_only_call s (Register u m) =
     (tls_key s u = None \<and> (case m of None \<Rightarrow> True | Some a \<Rightarrow> heap s a = None))"
| "append_only_call s (Unregister u) = (tls_key s u = None)"
| "append_only_call s c = True"

fun append_only :: "qstate \<Rightarrow> call list \<Rightarrow> bool" where
  "append_only s [] = True"
| "append_only s (c # cs) =
     (append_only_call s c
      \<and> (case exec s c of None \<Rightarrow> True | Some s' \<Rightarrow> append_only s' cs))"

section \<open>Example states\<close>

text \<open>
  Threads 0 and 1 have registered on a fresh instance (their records are at the
  addresses 0 and 1), a barrier has been issued, thread 0 has passed a checkpoint and
  thread 1 has gone offline.
\<close>

definition ex_two :: qstate where
  "ex_two =
     \<lparr>global_epoch = 3,
      tls_key = (\<lambda>_. None)(0 \<mapsto> 0, 1 \<mapsto> 1),
      list_head = Some 1,
      heap = (\<lambda>_. None)(0 \<mapsto> \<lparr>local_epoch = 3, next = None\<rparr>,
                         1 \<mapsto> \<lparr>local_epoch = 1, next = Some 0\<rparr>)\<rparr>"

text \<open>
  Thread 0 has registered on a fresh instance (its record is at address 0), \<open>2^64 - 3\<close>
  barriers have brought the global epoch to \<open>2^64 - 1\<close>, and thread 0 has passed a
  checkpoint.
\<close>

definition ex_last :: qstate where
  "ex_last =
     \<lparr>global_epoch = 18446744073709551615,
      tls_key = (\<lambda>_. None)(0 \<mapsto> 0),
      list_head = Some 0,
      heap = (\<lambda>_. None)(0 \<mapsto> \<lparr>local_epoch = 18446744073709551615, next = None\<rparr>)\<rparr>"

section \<open>The barrier\<close>

text \<open>
  Claim C2.  \<^verbatim>\<open>qsbr_barrier\<close> adds one to the global epoch (in 64-bit unsigned
  arithmetic) and returns the new value; the key, the list head and the memory of the
  per-thread records are as before.
\<close>

theorem qsbr_barrier_increments:
  "global_epoch (snd (qsbr_barrier s)) = global_epoch s + 1
   \<and> fst (qsbr_barrier s) = global_epoch (snd (qsbr_barrier s))
   \<and> tls_key (snd (qsbr_barrier s)) = tls_key s
   \<and> list_head (snd (qsbr_barrier s)) = list_head s
   \<and> heap (snd (qsbr_barrier s)) = heap s
   \<and> snd (qsbr_barrier s) = s\<lparr>global_epoch := global_epoch s + 1\<rparr>"
  by (simp add: qsbr_barrier_def Let_def)

section \<open>The registry scan\<close>

lemma ex_two_reached:
  "run (the (qsbr_create True True))
     [Register 0 (Some 0), Register 1 (Some 1), Barrier, Checkpoint 0, ThreadOffline 1]
   = Some ex_two"
  by (simp add: qsbr_create_def calloc_qsbr_def qsbr_register_def push_record_def
      qsbr_barrier_def qsbr_checkpoint_def qsbr_thread_offline_def tls_record_def
      returned_def ex_two_def fun_upd_twist)

lemma chain_unique: "chain h p as \<Longrightarrow> chain h p bs \<Longrightarrow> as = bs"
proof (induction as arbitrary: p bs)
  case Nil
  then show ?case by (cases bs) auto
next
  case (Cons a as)
  then show ?case by (cases bs) (auto split: option.splits)
qed

lemma chain_set_epoch:
  "chain h p as \<Longrightarrow> h t = Some r0 \<Longrightarrow> chain (h(t \<mapsto> r0\<lparr>local_epoch := e\<rparr>)) p as"
  by (induction as arbitrary: p) (auto split: option.splits)

text \<open>
  On a registry that is a proper list the scan returns, and its answer is whether every
  record is offline or has reached the target.
\<close>

lemma sync_scan_chain:
  "chain h p as \<Longrightarrow>
   sync_scan h target p =
     Some (Inr (\<forall>a\<in>set as. \<exists>r. h a = Some r \<and> (local_epoch r = 1 \<or> target \<le> local_epoch r)))"
proof (induction as arbitrary: p)
  case Nil
  then show ?case by (simp add: sync_scan.simps)
next
  case (Cons a as)
  then obtain r where p: "p = Some a" and r: "h a = Some r" and rest: "chain h (next r) as"
    by (auto split: option.splits)
  show ?case
  proof (cases "local_epoch r \<noteq> 1 \<and> local_epoch r < target")
    case True
    then show ?thesis using p r by (subst sync_scan.simps) (auto simp: not_le)
  next
    case False
    then have "sync_scan h target p = sync_scan h target (next r)"
      using p r by (subst sync_scan.simps) auto
    then show ?thesis using Cons.IH [OF rest] False r by (auto simp: not_less)
  qed
qed

text \<open>
  Claim C1, as the code has it.  Let the caller \<open>tid\<close> have a record (at \<open>t\<close>,
  allocated) and let the registry be a proper list of allocated records \<open>as\<close>, ending
  in \<^verbatim>\<open>NULL\<close>.  Then, for every target, \<^verbatim>\<open>qsbr_sync\<close> performs
  the caller's checkpoint, which stores the global epoch in the caller's record and
  changes nothing else, and returns; it returns true if and only if every record of
  the registry, read after that checkpoint, holds the value 1 or an epoch that is at
  least the target in the unsigned order.
\<close>

theorem qsbr_sync_grace_period:
  assumes "tls_key s tid = Some t" and "heap s t = Some r0"
    and "chain (heap s) (list_head s) as"
  shows "\<exists>s1. qsbr_checkpoint s tid = Inr s1
     \<and> qsbr_get_epoch s1 tid = Inr (global_epoch s)
     \<and> s1 = s\<lparr>heap := (heap s)(t \<mapsto> r0\<lparr>local_epoch := global_epoch s\<rparr>)\<rparr>
     \<and> qsbr_sync s tid target =
         Some (Inr ((\<forall>a\<in>set as. \<exists>r. heap s1 a = Some r
                       \<and> (local_epoch r = 1 \<or> target \<le> local_epoch r)), s1))"
proof -
  let ?s1 = "s\<lparr>heap := (heap s)(t \<mapsto> r0\<lparr>local_epoch := global_epoch s\<rparr>)\<rparr>"
  have cp: "qsbr_checkpoint s tid = Inr ?s1"
    using assms(1,2) by (simp add: qsbr_checkpoint_def tls_record_def)
  have ch: "chain (heap ?s1) (list_head ?s1) as"
    using chain_set_epoch [OF assms(3) assms(2)] by simp
  have ge: "qsbr_get_epoch ?s1 tid = Inr (global_epoch s)"
    using assms(1) by (simp add: qsbr_get_epoch_def tls_record_def)
  show ?thesis
    using cp ge sync_scan_chain [OF ch, of target]
    by (simp add: qsbr_sync_def)
qed

theorem qsbr_sync_grace_period_witness:
  "tls_key ex_two 0 = Some 0
   \<and> heap ex_two 0 = Some \<lparr>local_epoch = 3, next = None\<rparr>
   \<and> chain (heap ex_two) (list_head ex_two) [1, 0]
   \<and> (\<exists>s1. qsbr_sync ex_two 0 3 = Some (Inr (True, s1)))
   \<and> (\<exists>s1. qsbr_sync ex_two 0 4 = Some (Inr (False, s1)))"
  using qsbr_sync_grace_period [of ex_two 0 0 "\<lparr>local_epoch = 3, next = None\<rparr>" "[1, 0]" 3]
    qsbr_sync_grace_period [of ex_two 0 0 "\<lparr>local_epoch = 3, next = None\<rparr>" "[1, 0]" 4]
  by (simp add: ex_two_def)

section \<open>An empty registry\<close>

text \<open>
  Claim C7, as the code has it.  On an instance whose registry is empty,
  \<^verbatim>\<open>qsbr_sync\<close> returns true for every target when the caller has a record.  When the
  caller has none, as on an instance where no thread has registered, the checkpoint
  inside \<^verbatim>\<open>qsbr_sync\<close> fails its assertion and no value is returned.  The scan by
  itself returns true at once on an empty registry.
\<close>

theorem qsbr_sync_empty_registry:
  assumes "list_head s = None"
  shows "(tls_key s tid = None \<longrightarrow> qsbr_sync s tid target = Some (Inl AssertFail))
   \<and> (\<forall>t r. tls_key s tid = Some t \<and> heap s t = Some r \<longrightarrow>
         qsbr_sync s tid target =
           Some (Inr (True, s\<lparr>heap := (heap s)(t \<mapsto> r\<lparr>local_epoch := global_epoch s\<rparr>)\<rparr>)))
   \<and> sync_scan (heap s) target (list_head s) = Some (Inr True)"
  using assms
  by (auto simp: qsbr_sync_def qsbr_checkpoint_def tls_record_def sync_scan.simps)

theorem qsbr_sync_empty_registry_witness:
  "list_head (the (qsbr_create True True)) = None
   \<and> tls_key (the (qsbr_create True True)) 0 = None
   \<and> qsbr_sync (the (qsbr_create True True)) 0 3 = Some (Inl AssertFail)
   \<and> sync_scan (heap (the (qsbr_create True True))) 3 (list_head (the (qsbr_create True True)))
       = Some (Inr True)
   \<and> list_head (ex_two\<lparr>list_head := None\<rparr>) = None
   \<and> tls_key (ex_two\<lparr>list_head := None\<rparr>) 1 = Some 1
   \<and> heap (ex_two\<lparr>list_head := None\<rparr>) 1 = Some \<lparr>local_epoch = 1, next = Some 0\<rparr>
   \<and> (\<exists>s'. qsbr_sync (ex_two\<lparr>list_head := None\<rparr>) 1 7 = Some (Inr (True, s')))"
  using qsbr_sync_empty_registry [of "the (qsbr_create True True)" 0 3]
    qsbr_sync_empty_registry [of "ex_two\<lparr>list_head := None\<rparr>" 1 7]
  by (simp add: qsbr_create_def calloc_qsbr_def ex_two_def)

text \<open>
  The claim as it was stated fails on a fresh instance: no thread has a record, the
  registry is empty, and \<^verbatim>\<open>qsbr_sync\<close> called with target 3 stops at the assertion of
  \<^verbatim>\<open>qsbr_checkpoint\<close>.
\<close>

theorem qsbr_sync_no_threads_counterexample:
  "list_head (the (qsbr_create True True)) = None
   \<and> tls_key (the (qsbr_create True True)) 0 = None
   \<and> qsbr_checkpoint (the (qsbr_create True True)) 0 = Inl AssertFail
   \<and> qsbr_sync (the (qsbr_create True True)) 0 3 = Some (Inl AssertFail)"
  by (simp add: qsbr_create_def calloc_qsbr_def qsbr_sync_def qsbr_checkpoint_def tls_record_def)

section \<open>The global epoch\<close>

text \<open>Only the barrier writes the global epoch.\<close>

lemma qsbr_register_global: "qsbr_register s tid m = Inr s' \<Longrightarrow> global_epoch s' = global_epoch s"
  by (auto simp: qsbr_register_def push_record_def split: option.splits)

lemma qsbr_unregister_global: "qsbr_unregister s tid = Inr s' \<Longrightarrow> global_epoch s' = global_epoch s"
  by (auto simp: qsbr_unregister_def split: option.splits)

lemma qsbr_checkpoint_global: "qsbr_checkpoint s tid = Inr s' \<Longrightarrow> global_epoch s' = global_epoch s"
  by (auto simp: qsbr_checkpoint_def split: sum.splits)

lemma qsbr_thread_offline_global:
  "qsbr_thread_offline s tid = Inr s' \<Longrightarrow> global_epoch s' = global_epoch s"
  by (auto simp: qsbr_thread_offline_def split: sum.splits)

lemma qsbr_thread_online_global:
  "qsbr_thread_online s tid = Inr s' \<Longrightarrow> global_epoch s' = global_epoch s"
  by (auto simp: qsbr_thread_online_def split: sum.splits)

lemma qsbr_sync_global:
  "qsbr_sync s tid target = Some (Inr (b, s')) \<Longrightarrow> global_epoch s' = global_epoch s"
  by (auto simp: qsbr_sync_def dest: qsbr_checkpoint_global split: sum.splits option.splits)



lemma wait_loop_global:
  assumes "wait_loop s tid e = Some x"
  shows "\<forall>s'. x = Inr s' \<longrightarrow> global_epoch s' = global_epoch s"
  using assms
proof (induction rule: wait_loop.raw_induct [rotated 1, consumes 1])
  case (1 wl s tid e x)
  show ?case
  proof (cases "qsbr_sync s tid e")
    case None
    with 1(2) show ?thesis by simp
  next
    case (Some y)
    show ?thesis
    proof (cases y)
      case (Inl er)
      have "x = Inl er" using 1(2) unfolding Some Inl by simp
      then show ?thesis by simp
    next
      case (Inr bs)
      obtain b s1 where bs: "bs = (b, s1)" by (cases bs)
      have g: "global_epoch s1 = global_epoch s"
        by (rule qsbr_sync_global [of s tid e b s1]) (simp add: Some Inr bs)
      have body: "(if b then Some (Inr s1) else wl s1 tid e) = Some x"
        using 1(2) unfolding Some Inr bs by simp
      show ?thesis
      proof (cases b)
        case True
        with body have "x = Inr s1" by simp
        then show ?thesis using g by simp
      next
        case False
        with body have "wl s1 tid e = Some x" by simp
        from 1(1) [OF this] show ?thesis unfolding g .
      qed
    qed
  qed
qed


lemma qsbr_wait_global:
  assumes "qsbr_wait s tid = Some (Inr s')"
  shows "global_epoch s' = global_epoch s + 1"
proof -
  have "wait_loop (s\<lparr>global_epoch := global_epoch s + 1\<rparr>) tid (global_epoch s + 1) = Some (Inr s')"
    using assms by (simp add: qsbr_wait_def qsbr_barrier_def Let_def)
  from wait_loop_global [OF this] show ?thesis by simp
qed

lemma exec_global:
  assumes "exec s c = Some s'"
  shows "global_epoch s' = (if advances c then global_epoch s + 1 else global_epoch s)"
proof (cases c)
  case (Register tid m)
  then show ?thesis using assms qsbr_register_global [of s tid m s']
    by (auto split: sum.splits if_splits)
next
  case (Unregister tid)
  then show ?thesis using assms qsbr_unregister_global [of s tid s']
    by (auto simp: returned_def split: sum.splits)
next
  case (Checkpoint tid)
  then show ?thesis using assms qsbr_checkpoint_global [of s tid s']
    by (auto simp: returned_def split: sum.splits)
next
  case (GetEpoch tid)
  then show ?thesis using assms by (auto split: sum.splits)
next
  case Barrier
  then show ?thesis using assms by (auto simp: qsbr_barrier_def Let_def)
next
  case (Wait tid)
  then show ?thesis using assms qsbr_wait_global [of s tid s']
    by (auto simp: returned_def split: option.splits sum.splits)
next
  case (Sync tid target)
  then show ?thesis using assms qsbr_sync_global [of s tid target _ s']
    by (auto split: option.splits sum.splits)
next
  case (ThreadOffline tid)
  then show ?thesis using assms qsbr_thread_offline_global [of s tid s']
    by (auto simp: returned_def split: sum.splits)
next
  case (ThreadOnline tid)
  then show ?thesis using assms qsbr_thread_online_global [of s tid s']
    by (auto simp: returned_def split: sum.splits)
qed

lemma run_global:
  "run s cs = Some s' \<Longrightarrow> global_epoch s' = global_epoch s + of_nat (length (filter advances cs))"
proof (induction cs arbitrary: s)
  case Nil
  then show ?case by simp
next
  case (Cons c cs)
  then obtain s1 where e: "exec s c = Some s1" and r: "run s1 cs = Some s'"
    by (auto split: option.splits)
  show ?case using Cons.IH [OF r] exec_global [OF e] by simp
qed

lemma epoch_no_wrap:
  fixes g :: qsbr_epoch_t
  assumes "unat g + n < 2 ^ 64"
  shows "unat (g + of_nat n) = unat g + n" and "g \<le> g + of_nat n"
proof -
  show u: "unat (g + of_nat n) = unat g + n"
    using assms by (simp add: unat_word_ariths unat_of_nat)
  show "g \<le> g + of_nat n"
    using u by (simp add: word_le_nat_alt)
qed

lemma epoch_succ:
  fixes g :: qsbr_epoch_t
  assumes "unat g < 2 ^ 64 - 1"
  shows "g \<le> g + 1"
  using epoch_no_wrap(2) [of g 1] assms by simp

lemma run_append:
  "run s (cs @ ds) = (case run s cs of None \<Rightarrow> None | Some s' \<Rightarrow> run s' ds)"
  by (induction cs arbitrary: s) (auto split: option.splits)

lemma run_barriers:
  "run s (replicate n Barrier) = Some (s\<lparr>global_epoch := global_epoch s + of_nat n\<rparr>)"
proof (induction n arbitrary: s)
  case 0
  then show ?case by simp
next
  case (Suc n)
  show ?case by (simp add: Suc qsbr_barrier_def Let_def add.assoc add.commute)
qed

lemma ex_last_reached:
  "run (the (qsbr_create True True))
     (Register 0 (Some 0) # replicate (2 ^ 64 - 3) Barrier @ [Checkpoint 0])
   = Some ex_last"
  by (simp add: run_append run_barriers qsbr_create_def calloc_qsbr_def qsbr_register_def
      push_record_def qsbr_checkpoint_def tls_record_def returned_def ex_last_def)

text \<open>
  Claim C3, as the code has it.  A fresh instance has global epoch 2;
  \<^verbatim>\<open>qsbr_thread_offline\<close> stores the fixed value 1 as the caller's local epoch; and
  every call of the interface that returns keeps the global epoch at 2 or above (so
  different from 1) and does not decrease it, unless the call is one that adds to the
  global epoch while it is \<open>2^64 - 1\<close>.  Only such calls (\<^verbatim>\<open>qsbr_barrier\<close>, and
  \<^verbatim>\<open>qsbr_wait\<close> through it) change the global epoch at all, and they add one.
\<close>

theorem global_epoch_invariant:
  "(qsbr_create c k = Some s0 \<longrightarrow> global_epoch s0 = 2)
   \<and> (qsbr_thread_offline s tid = Inr s1 \<longrightarrow> qsbr_get_epoch s1 tid = Inr 1)
   \<and> (2 \<le> global_epoch s \<and> exec s cl = Some s'
        \<and> (advances cl \<longrightarrow> unat (global_epoch s) < 2 ^ 64 - 1) \<longrightarrow>
        2 \<le> global_epoch s' \<and> global_epoch s \<le> global_epoch s' \<and> global_epoch s' \<noteq> 1
        \<and> global_epoch s' = (if advances cl then global_epoch s + 1 else global_epoch s))"
proof (intro conjI impI)
  assume "qsbr_create c k = Some s0"
  then show "global_epoch s0 = 2"
    by (auto simp: qsbr_create_def calloc_qsbr_def split: if_splits)
next
  assume "qsbr_thread_offline s tid = Inr s1"
  then show "qsbr_get_epoch s1 tid = Inr 1"
    by (auto simp: qsbr_thread_offline_def qsbr_get_epoch_def tls_record_def
        split: option.splits)
next
  assume a: "2 \<le> global_epoch s \<and> exec s cl = Some s'
        \<and> (advances cl \<longrightarrow> unat (global_epoch s) < 2 ^ 64 - 1)"
  then have e: "global_epoch s' = (if advances cl then global_epoch s + 1 else global_epoch s)"
    using exec_global by blast
  have up: "advances cl \<Longrightarrow> global_epoch s \<le> global_epoch s + 1"
    using a epoch_succ by blast
  show mono: "global_epoch s \<le> global_epoch s'"
    using e up by (cases "advances cl") simp_all
  show two: "2 \<le> global_epoch s'"
    using a mono by (meson order_trans)
  show "global_epoch s' \<noteq> 1"
  proof
    assume "global_epoch s' = 1"
    with two have "(2 :: qsbr_epoch_t) \<le> 1" by simp
    then show False by (simp add: word_le_nat_alt)
  qed
  show "global_epoch s' = (if advances cl then global_epoch s + 1 else global_epoch s)"
    by (rule e)
qed

theorem global_epoch_invariant_witness:
  "qsbr_create True True = Some (calloc_qsbr\<lparr>global_epoch := 2\<rparr>)
   \<and> global_epoch (calloc_qsbr\<lparr>global_epoch := 2\<rparr>) = 2
   \<and> exec ex_two Barrier = Some (ex_two\<lparr>global_epoch := 4\<rparr>)
   \<and> unat (global_epoch ex_two) < 2 ^ 64 - 1
   \<and> 2 \<le> global_epoch (ex_two\<lparr>global_epoch := 4\<rparr>)
   \<and> global_epoch ex_two \<le> global_epoch (ex_two\<lparr>global_epoch := 4\<rparr>)
   \<and> (\<exists>s1. qsbr_thread_offline ex_two 0 = Inr s1 \<and> qsbr_get_epoch s1 0 = Inr 1)"
  using global_epoch_invariant [of True True "calloc_qsbr\<lparr>global_epoch := 2\<rparr>" ex_two 0
      "ex_two\<lparr>heap := (heap ex_two)(0 \<mapsto> \<lparr>local_epoch = 1, next = None\<rparr>)\<rparr>"
      Barrier "ex_two\<lparr>global_epoch := 4\<rparr>"]
  by (simp add: qsbr_create_def ex_two_def qsbr_barrier_def qsbr_thread_offline_def
      tls_record_def)

text \<open>
  The claim as it was stated fails when the counter wraps: \<open>2^64 - 3\<close> barriers on a
  fresh instance leave the global epoch at \<open>2^64 - 1\<close>, which is at least 2, and the
  next barrier leaves it at 0.
\<close>

theorem global_epoch_wraps_counterexample:
  "map_option global_epoch
     (run (the (qsbr_create True True)) (replicate (2 ^ 64 - 3) Barrier)) = Some 18446744073709551615
   \<and> (2 :: qsbr_epoch_t) \<le> 18446744073709551615
   \<and> map_option global_epoch
     (run (the (qsbr_create True True)) (replicate (2 ^ 64 - 3) Barrier @ [Barrier])) = Some 0
   \<and> \<not> (2 :: qsbr_epoch_t) \<le> 0
   \<and> global_epoch (snd (qsbr_barrier ex_last)) = 0
   \<and> global_epoch ex_last = 18446744073709551615"
  by (simp add: run_append run_barriers qsbr_create_def calloc_qsbr_def qsbr_barrier_def
      ex_last_def)


section \<open>Local epochs at checkpoints\<close>

text \<open>
  Claim C4, as the code has it.  Thread \<open>tid\<close> passes a checkpoint, then any calls are
  made by any threads (thread \<open>tid\<close> among them, going offline and online as it
  likes), then thread \<open>tid\<close> passes a checkpoint again.  If the calls in between add
  to the global epoch fewer times than it takes to wrap around \<open>2^64\<close>, the local
  epoch published by the second checkpoint is at least the one published by the first.
  \<^verbatim>\<open>qsbr_thread_offline\<close> resets the local epoch to 1.
\<close>

theorem checkpoint_epochs_monotone:
  assumes "qsbr_checkpoint s tid = Inr s1" and "run s1 cs = Some s2"
    and "qsbr_checkpoint s2 tid = Inr s3"
    and "unat (global_epoch s) + length (filter advances cs) < 2 ^ 64"
  shows "qsbr_get_epoch s1 tid = Inr (global_epoch s)
     \<and> qsbr_get_epoch s3 tid = Inr (global_epoch s2)
     \<and> global_epoch s \<le> global_epoch s2
     \<and> (\<forall>s4. qsbr_thread_offline s3 tid = Inr s4 \<longrightarrow> qsbr_get_epoch s4 tid = Inr 1)"
proof -
  have cp: "qsbr_get_epoch u' tid = Inr (global_epoch u)" if "qsbr_checkpoint u tid = Inr u'" for u u'
    using that
    by (auto simp: qsbr_checkpoint_def qsbr_get_epoch_def tls_record_def split: option.splits)
  have "global_epoch s1 = global_epoch s"
    using assms(1) by (rule qsbr_checkpoint_global)
  then have "global_epoch s2 = global_epoch s + of_nat (length (filter advances cs))"
    using run_global [OF assms(2)] by simp
  then have "global_epoch s \<le> global_epoch s2"
    using epoch_no_wrap(2) [OF assms(4)] by simp
  moreover have "qsbr_get_epoch s4 tid = Inr 1" if "qsbr_thread_offline s3 tid = Inr s4" for s4
    using that
    by (auto simp: qsbr_thread_offline_def qsbr_get_epoch_def tls_record_def split: option.splits)
  ultimately show ?thesis
    using cp [OF assms(1)] cp [OF assms(3)] by blast
qed

theorem checkpoint_epochs_monotone_witness:
  "(\<exists>s1 s2 s3. qsbr_checkpoint ex_two 0 = Inr s1
      \<and> run s1 [ThreadOffline 0, Barrier, Checkpoint 1, ThreadOnline 0, Barrier] = Some s2
      \<and> qsbr_checkpoint s2 0 = Inr s3
      \<and> qsbr_get_epoch s1 0 = Inr 3 \<and> qsbr_get_epoch s3 0 = Inr 5)
   \<and> unat (global_epoch ex_two)
       + length (filter advances [ThreadOffline 0, Barrier, Checkpoint 1, ThreadOnline 0, Barrier])
       < 2 ^ 64
   \<and> (3 :: qsbr_epoch_t) \<le> 5"
proof -
  obtain s1 where s1: "qsbr_checkpoint ex_two 0 = Inr s1"
    by (simp add: qsbr_checkpoint_def tls_record_def ex_two_def)
  obtain s2 where s2:
    "run s1 [ThreadOffline 0, Barrier, Checkpoint 1, ThreadOnline 0, Barrier] = Some s2"
    using s1
    by (auto simp: qsbr_checkpoint_def qsbr_thread_offline_def qsbr_thread_online_def
        qsbr_barrier_def tls_record_def returned_def ex_two_def)
  obtain s3 where s3: "qsbr_checkpoint s2 0 = Inr s3"
    using s1 s2
    by (auto simp: qsbr_checkpoint_def qsbr_thread_offline_def qsbr_thread_online_def
        qsbr_barrier_def tls_record_def returned_def ex_two_def)
  have n: "unat (global_epoch ex_two)
       + length (filter advances [ThreadOffline 0, Barrier, Checkpoint 1, ThreadOnline 0, Barrier])
       < 2 ^ 64"
    by (simp add: ex_two_def)
  have g2: "global_epoch s2 = 5"
    using run_global [OF s2] qsbr_checkpoint_global [OF s1] by (simp add: ex_two_def)
  from checkpoint_epochs_monotone [OF s1 s2 s3 n] g2 s1 s2 s3 n show ?thesis
    by (auto simp: ex_two_def)
qed

text \<open>
  The claim as it was stated fails when the counter wraps: thread 0 passes a
  checkpoint at global epoch \<open>2^64 - 1\<close>, a barrier is issued, and thread 0 passes a
  checkpoint again; its local epoch goes from \<open>2^64 - 1\<close> to 0, and the thread has
  not been offline.
\<close>

theorem checkpoint_epochs_wrap_counterexample:
  "map_option (\<lambda>s. qsbr_get_epoch s 0) (run ex_last [Checkpoint 0])
     = Some (Inr 18446744073709551615)
   \<and> map_option (\<lambda>s. qsbr_get_epoch s 0) (run ex_last [Checkpoint 0, Barrier, Checkpoint 0])
     = Some (Inr 0)
   \<and> \<not> (18446744073709551615 :: qsbr_epoch_t) \<le> 0"
  by (simp add: qsbr_get_epoch_def qsbr_checkpoint_def qsbr_barrier_def tls_record_def
      returned_def ex_last_def)

section \<open>Errors\<close>

lemma sync_scan_no_enomem:
  assumes "sync_scan h target p = Some x"
  shows "x \<noteq> Inl ENOMEM"
  using assms
proof (induction rule: sync_scan.raw_induct [rotated 1, consumes 1])
  case (1 scan h target p x)
  show ?case
  proof (cases p)
    case None
    with 1(2) show ?thesis by auto
  next
    case (Some a)
    show ?thesis
    proof (cases "h a")
      case None
      with Some 1(2) show ?thesis by auto
    next
      case r: (Some r)
      show ?thesis
      proof (cases "local_epoch r \<noteq> 1 \<and> local_epoch r < target")
        case True
        with Some r 1(2) show ?thesis by auto
      next
        case False
        with Some r 1(2) have "scan h target (next r) = Some x" by auto
        then show ?thesis by (rule 1(1))
      qed
    qed
  qed
qed

lemma tls_record_no_enomem: "tls_record s tid \<noteq> Inl ENOMEM"
  by (simp add: tls_record_def split: option.splits)

lemma qsbr_checkpoint_no_enomem: "qsbr_checkpoint s tid \<noteq> Inl ENOMEM"
  using tls_record_no_enomem [of s tid]
  by (auto simp: qsbr_checkpoint_def split: sum.splits)

lemma qsbr_sync_no_enomem: "qsbr_sync s tid target \<noteq> Some (Inl ENOMEM)"
proof
  assume a: "qsbr_sync s tid target = Some (Inl ENOMEM)"
  show False
  proof (cases "qsbr_checkpoint s tid")
    case (Inl e)
    with a qsbr_checkpoint_no_enomem [of s tid] show False
      by (simp add: qsbr_sync_def)
  next
    case (Inr s1)
    with a have "sync_scan (heap s1) target (list_head s1) = Some (Inl ENOMEM)"
      by (auto simp: qsbr_sync_def split: option.splits sum.splits)
    from sync_scan_no_enomem [OF this] show False by simp
  qed
qed

text \<open>
  Claim C6.  \<^verbatim>\<open>qsbr_create\<close> returns \<^verbatim>\<open>NULL\<close> exactly when the allocation of the
  instance or the creation of the key fails.  \<^verbatim>\<open>qsbr_register\<close> returns \<open>ENOMEM\<close>
  exactly when it calls \<^verbatim>\<open>malloc\<close> (the caller has no record yet) and \<^verbatim>\<open>malloc\<close>
  fails; otherwise it returns 0, the caller's key pointing to allocated memory whenever
  it is set.  No other operation yields the error value: the barrier returns the new
  epoch, \<^verbatim>\<open>qsbr_destroy\<close> returns nothing, and the per-thread operations return
  normally for a caller that has a record.
\<close>

theorem only_out_of_memory_errors:
  "(qsbr_create calloc_ok key_ok = None \<longleftrightarrow> \<not> calloc_ok \<or> \<not> key_ok)
   \<and> (qsbr_register s tid m = Inl ENOMEM \<longleftrightarrow> tls_key s tid = None \<and> m = None)
   \<and> (\<not> (tls_key s tid = None \<and> m = None)
        \<and> (\<forall>t. tls_key s tid = Some t \<longrightarrow> heap s t \<noteq> None)
        \<longrightarrow> (\<exists>s'. qsbr_register s tid m = Inr s'))
   \<and> qsbr_checkpoint s tid \<noteq> Inl ENOMEM
   \<and> fst (qsbr_barrier s) = global_epoch s + 1
   \<and> qsbr_sync s tid target \<noteq> Some (Inl ENOMEM)
   \<and> qsbr_get_epoch s tid \<noteq> Inl ENOMEM
   \<and> qsbr_thread_offline s tid \<noteq> Inl ENOMEM
   \<and> qsbr_thread_online s tid \<noteq> Inl ENOMEM
   \<and> qsbr_unregister s tid \<noteq> Inl ENOMEM
   \<and> qsbr_destroy s = heap s
   \<and> (\<forall>t. tls_key s tid = Some t \<and> heap s t \<noteq> None \<longrightarrow>
         (\<exists>s'. qsbr_checkpoint s tid = Inr s') \<and> (\<exists>e. qsbr_get_epoch s tid = Inr e)
         \<and> (\<exists>s'. qsbr_thread_offline s tid = Inr s')
         \<and> (\<exists>s'. qsbr_thread_online s tid = Inr s')
         \<and> (\<exists>s'. qsbr_unregister s tid = Inr s'))"
proof -
  have c: "qsbr_create calloc_ok key_ok = None \<longleftrightarrow> \<not> calloc_ok \<or> \<not> key_ok"
    by (simp add: qsbr_create_def)
  have r1: "qsbr_register s tid m = Inl ENOMEM \<longleftrightarrow> tls_key s tid = None \<and> m = None"
    by (auto simp: qsbr_register_def split: option.splits)
  have r2: "\<not> (tls_key s tid = None \<and> m = None)
        \<and> (\<forall>t. tls_key s tid = Some t \<longrightarrow> heap s t \<noteq> None)
        \<longrightarrow> (\<exists>s'. qsbr_register s tid m = Inr s')"
    by (auto simp: qsbr_register_def split: option.splits)
  have g: "qsbr_get_epoch s tid \<noteq> Inl ENOMEM"
    using tls_record_no_enomem [of s tid] by (auto simp: qsbr_get_epoch_def split: sum.splits)
  have off: "qsbr_thread_offline s tid \<noteq> Inl ENOMEM"
    using tls_record_no_enomem [of s tid]
    by (auto simp: qsbr_thread_offline_def split: sum.splits)
  have on: "qsbr_thread_online s tid \<noteq> Inl ENOMEM"
    using tls_record_no_enomem [of s tid]
    by (auto simp: qsbr_thread_online_def split: sum.splits)
  have u: "qsbr_unregister s tid \<noteq> Inl ENOMEM"
    by (simp add: qsbr_unregister_def split: option.splits)
  have b: "fst (qsbr_barrier s) = global_epoch s + 1"
    by (simp add: qsbr_barrier_def Let_def)
  have ok: "\<forall>t. tls_key s tid = Some t \<and> heap s t \<noteq> None \<longrightarrow>
         (\<exists>s'. qsbr_checkpoint s tid = Inr s') \<and> (\<exists>e. qsbr_get_epoch s tid = Inr e)
         \<and> (\<exists>s'. qsbr_thread_offline s tid = Inr s')
         \<and> (\<exists>s'. qsbr_thread_online s tid = Inr s')
         \<and> (\<exists>s'. qsbr_unregister s tid = Inr s')"
    by (auto simp: qsbr_checkpoint_def qsbr_get_epoch_def qsbr_thread_offline_def
        qsbr_thread_online_def qsbr_unregister_def tls_record_def)
  show ?thesis
    using c r1 r2 qsbr_checkpoint_no_enomem [of s tid] b qsbr_sync_no_enomem [of s tid target]
      g off on u ok
    by (simp only: qsbr_destroy_def simp_thms)
qed

theorem only_out_of_memory_errors_witness:
  "qsbr_create False True = None \<and> qsbr_create True False = None
   \<and> qsbr_create True True \<noteq> None
   \<and> qsbr_register ex_two 2 None = Inl ENOMEM
   \<and> tls_key ex_two 2 = None
   \<and> (\<exists>s'. qsbr_register ex_two 2 (Some 2) = Inr s')
   \<and> tls_key ex_two 1 = Some 1 \<and> heap ex_two 1 \<noteq> None
   \<and> (\<exists>s'. qsbr_register ex_two 1 None = Inr s')
   \<and> (\<exists>s'. qsbr_checkpoint ex_two 1 = Inr s')
   \<and> (\<exists>s'. qsbr_unregister ex_two 1 = Inr s')"
  using only_out_of_memory_errors [of False True ex_two 2 None]
    only_out_of_memory_errors [of True False ex_two 2 "Some 2"]
    only_out_of_memory_errors [of True True ex_two 1 None]
  by (simp add: ex_two_def)

section \<open>Unregistering\<close>

text \<open>
  Claim C5 does not hold of the code.  In the example state the registry is the list
  of the records at 1 and 0, and thread 1, which is offline, unregisters.  Its record
  is freed and its key cleared, but the head of the list still points to the freed
  record: the scan of \<^verbatim>\<open>qsbr_sync\<close>, called by thread 0, starts at it and reads memory
  that is no longer allocated.
\<close>

theorem qsbr_unregister_record_stays_linked:
  "chain (heap ex_two) (list_head ex_two) [1, 0]
   \<and> tls_key ex_two 1 = Some 1
   \<and> qsbr_get_epoch ex_two 1 = Inr 1
   \<and> \<not> isl (qsbr_unregister ex_two 1)
   \<and> tls_key (projr (qsbr_unregister ex_two 1)) 1 = None
   \<and> heap (projr (qsbr_unregister ex_two 1)) 1 = None
   \<and> list_head (projr (qsbr_unregister ex_two 1)) = Some 1
   \<and> sync_scan (heap (projr (qsbr_unregister ex_two 1))) 3
        (list_head (projr (qsbr_unregister ex_two 1))) = Some (Inl MemFault)
   \<and> qsbr_sync (projr (qsbr_unregister ex_two 1)) 0 3 = Some (Inl MemFault)"
  by (simp add: ex_two_def qsbr_unregister_def qsbr_get_epoch_def tls_record_def
      qsbr_sync_def qsbr_checkpoint_def sync_scan.simps)

section \<open>Registering\<close>

lemma chain_allocated: "chain h p as \<Longrightarrow> a \<in> set as \<Longrightarrow> h a \<noteq> None"
  by (induction as arbitrary: p) (auto split: option.splits)

lemma chain_other_update: "a \<notin> set as \<Longrightarrow> chain (h(a := v)) p as = chain h p as"
  by (induction as arbitrary: p) (auto split: option.splits)

lemma register_new:
  assumes "tls_key s t = None"
  shows "qsbr_register s t (Some a) =
     Inr (s\<lparr>tls_key := (tls_key s)(t \<mapsto> a), list_head := Some a,
            heap := (heap s)(a \<mapsto> \<lparr>local_epoch = 0, next = list_head s\<rparr>)\<rparr>)"
  using assms by (simp add: qsbr_register_def push_record_def)

text \<open>
  Threads without a record register one after the other, each with a block that
  \<^verbatim>\<open>malloc\<close> has not handed out before: the new records are pushed in front of the
  registry, the last one first.
\<close>

lemma run_register_new:
  assumes "length tids = length addrs"
    and "chain (heap s) (list_head s) as"
    and "distinct tids" and "distinct addrs"
    and "\<forall>t\<in>set tids. tls_key s t = None"
    and "\<forall>a\<in>set addrs. heap s a = None"
  shows "\<exists>s'. run s (map2 (\<lambda>t a. Register t (Some a)) tids addrs) = Some s'
     \<and> chain (heap s') (list_head s') (rev addrs @ as)
     \<and> (\<forall>i<length tids. tls_key s' (tids ! i) = Some (addrs ! i))
     \<and> (\<forall>a\<in>set addrs. map_option local_epoch (heap s' a) = Some 0)
     \<and> (\<forall>t. t \<notin> set tids \<longrightarrow> tls_key s' t = tls_key s t)
     \<and> (\<forall>a. a \<notin> set addrs \<longrightarrow> heap s' a = heap s a)"
  using assms
proof (induction tids addrs arbitrary: s as rule: list_induct2)
  case Nil
  then show ?case by simp
next
  case (Cons t tids a addrs)
  let ?s1 = "s\<lparr>tls_key := (tls_key s)(t \<mapsto> a), list_head := Some a,
            heap := (heap s)(a \<mapsto> \<lparr>local_epoch = 0, next = list_head s\<rparr>)\<rparr>"
  have reg: "qsbr_register s t (Some a) = Inr ?s1"
    using Cons.prems by (simp add: register_new)
  have fresh: "heap s a = None" using Cons.prems by simp
  then have "a \<notin> set as"
    using chain_allocated [OF Cons.prems(1)] by blast
  then have ch1: "chain (heap ?s1) (list_head ?s1) (a # as)"
    using Cons.prems(1) by (simp add: chain_other_update)
  have d: "distinct tids" "distinct addrs" "t \<notin> set tids" "a \<notin> set addrs"
    using Cons.prems by auto
  have u1: "\<forall>t'\<in>set tids. tls_key ?s1 t' = None"
    using Cons.prems d by auto
  have f1: "\<forall>a'\<in>set addrs. heap ?s1 a' = None"
    using Cons.prems d by auto
  from Cons.IH [OF ch1 d(1) d(2) u1 f1]
  obtain s' where r: "run ?s1 (map2 (\<lambda>t a. Register t (Some a)) tids addrs) = Some s'"
    and ch: "chain (heap s') (list_head s') (rev addrs @ a # as)"
    and tl: "\<forall>i<length tids. tls_key s' (tids ! i) = Some (addrs ! i)"
    and ep: "\<forall>a\<in>set addrs. map_option local_epoch (heap s' a) = Some 0"
    and ot: "\<forall>t'. t' \<notin> set tids \<longrightarrow> tls_key s' t' = tls_key ?s1 t'"
    and oh: "\<forall>a'. a' \<notin> set addrs \<longrightarrow> heap s' a' = heap ?s1 a'"
    by blast
  have run: "run s (map2 (\<lambda>t a. Register t (Some a)) (t # tids) (a # addrs)) = Some s'"
    using reg r by simp
  have tls: "\<forall>i<length (t # tids). tls_key s' ((t # tids) ! i) = Some ((a # addrs) ! i)"
  proof (intro allI impI)
    fix i assume "i < length (t # tids)"
    then show "tls_key s' ((t # tids) ! i) = Some ((a # addrs) ! i)"
      using tl ot d(3) by (cases i) auto
  qed
  have eps: "\<forall>a'\<in>set (a # addrs). map_option local_epoch (heap s' a') = Some 0"
    using ep oh d(4) by auto
  have ot': "\<forall>t'. t' \<notin> set (t # tids) \<longrightarrow> tls_key s' t' = tls_key s t'"
    using ot by auto
  have oh': "\<forall>a'. a' \<notin> set (a # addrs) \<longrightarrow> heap s' a' = heap s a'"
    using oh by auto
  show ?case
    using run ch tls eps ot' oh' by (intro exI [of _ s']) simp
qed

text \<open>
  Claim C8.  On a fresh instance, \<open>n\<close> distinct threads register, the calls taking
  effect one after the other in the order of the list \<open>tids\<close> (the compare-and-swap on
  the head orders them), and \<^verbatim>\<open>malloc\<close> returns the pairwise distinct blocks
  \<open>addrs\<close>.  All calls return 0.  Afterwards the registry is a proper list of exactly
  \<open>n\<close> records without repetition; the record of each thread is in it, holds local
  epoch 0 and is the one the thread's key points to.  No other thread has a record and
  no other memory is allocated.
\<close>

theorem register_fresh_threads:
  assumes "qsbr_create True True = Some s0"
    and "distinct tids" and "distinct addrs" and "length tids = length addrs"
  shows "\<exists>s. run s0 (map2 (\<lambda>t a. Register t (Some a)) tids addrs) = Some s
     \<and> chain (heap s) (list_head s) (rev addrs)
     \<and> length (rev addrs) = length tids \<and> distinct (rev addrs)
     \<and> (\<forall>i<length tids. tls_key s (tids ! i) = Some (addrs ! i)
           \<and> addrs ! i \<in> set (rev addrs)
           \<and> map_option local_epoch (heap s (addrs ! i)) = Some 0)
     \<and> (\<forall>t. t \<notin> set tids \<longrightarrow> tls_key s t = None)
     \<and> (\<forall>a. a \<notin> set addrs \<longrightarrow> heap s a = None)"
proof -
  have s0: "s0 = calloc_qsbr\<lparr>global_epoch := 2\<rparr>"
    using assms(1) by (simp add: qsbr_create_def)
  have init: "chain (heap s0) (list_head s0) []" "\<forall>t\<in>set tids. tls_key s0 t = None"
    "\<forall>a\<in>set addrs. heap s0 a = None"
    by (simp_all add: s0 calloc_qsbr_def)
  from run_register_new [OF assms(4) init(1) assms(2,3) init(2,3)]
  obtain s where r: "run s0 (map2 (\<lambda>t a. Register t (Some a)) tids addrs) = Some s"
    and ch: "chain (heap s) (list_head s) (rev addrs)"
    and tl: "\<forall>i<length tids. tls_key s (tids ! i) = Some (addrs ! i)"
    and ep: "\<forall>a\<in>set addrs. map_option local_epoch (heap s a) = Some 0"
    and ot: "\<forall>t. t \<notin> set tids \<longrightarrow> tls_key s t = tls_key s0 t"
    and oh: "\<forall>a. a \<notin> set addrs \<longrightarrow> heap s a = heap s0 a"
    by auto
  have "\<forall>i<length tids. addrs ! i \<in> set addrs"
    using assms(4) by simp
  then show ?thesis
    using r ch tl ep ot oh assms(3,4)
    by (intro exI [of _ s]) (simp add: s0 calloc_qsbr_def)
qed

theorem register_fresh_threads_witness:
  "qsbr_create True True = Some (calloc_qsbr\<lparr>global_epoch := 2\<rparr>)
   \<and> distinct [10, 11, 12 :: tid] \<and> distinct [7, 3, 5 :: addr]
   \<and> length [10, 11, 12 :: tid] = length [7, 3, 5 :: addr]
   \<and> (\<exists>s. run (calloc_qsbr\<lparr>global_epoch := 2\<rparr>)
              [Register 10 (Some 7), Register 11 (Some 3), Register 12 (Some 5)] = Some s
         \<and> chain (heap s) (list_head s) [5, 3, 7]
         \<and> tls_key s 11 = Some 3
         \<and> map_option local_epoch (heap s 3) = Some 0)"
proof -
  have c: "qsbr_create True True = Some (calloc_qsbr\<lparr>global_epoch := 2\<rparr>)"
    by (simp add: qsbr_create_def)
  have d: "distinct [10, 11, 12 :: tid]" "distinct [7, 3, 5 :: addr]"
    "length [10, 11, 12 :: tid] = length [7, 3, 5 :: addr]"
    by simp_all
  from register_fresh_threads [OF c d]
  obtain s where r: "run (calloc_qsbr\<lparr>global_epoch := 2\<rparr>)
       (map2 (\<lambda>t a. Register t (Some a)) [10, 11, 12] [7, 3, 5]) = Some s"
    and ch: "chain (heap s) (list_head s) (rev [7, 3, 5])"
    and al: "\<forall>i<length [10, 11, 12 :: tid]. tls_key s ([10, 11, 12] ! i) = Some ([7, 3, 5] ! i)
           \<and> [7, 3, 5] ! i \<in> set (rev [7, 3, 5 :: addr])
           \<and> map_option local_epoch (heap s ([7, 3, 5] ! i)) = Some 0"
    by blast
  have one: "(1 :: nat) < length [10, 11, 12 :: tid]" by simp
  from al [rule_format, OF one]
  have "tls_key s 11 = Some 3 \<and> map_option local_epoch (heap s 3) = Some 0"
    by simp
  moreover have "run (calloc_qsbr\<lparr>global_epoch := 2\<rparr>)
              [Register 10 (Some 7), Register 11 (Some 3), Register 12 (Some 5)] = Some s"
    using r by simp
  moreover have "chain (heap s) (list_head s) [5, 3, 7]"
    using ch by simp
  ultimately show ?thesis using c d by blast
qed

section \<open>Following the links\<close>

lemma walk_None: "walk h None n = None"
  by (cases n) simp_all

lemma walk_add: "walk h p (m + n) = walk h (walk h p m) n"
  by (induction m arbitrary: p) (auto simp: walk_None split: option.splits)

lemma walk_set_epoch:
  "h t = Some r0 \<Longrightarrow> walk (h(t \<mapsto> r0\<lparr>local_epoch := e\<rparr>)) p n = walk h p n"
  by (induction n arbitrary: p) (auto split: option.splits)


text \<open>A record that is linked in, is not offline and has not reached the target stops the scan.\<close>

lemma sync_scan_stops:
  assumes "walk h p n = Some t" and "h t = Some r"
    and "local_epoch r \<noteq> 1" and "local_epoch r < target"
  shows "sync_scan h target p = Some (Inr False)"
  using assms(1)
proof (induction n arbitrary: p)
  case 0
  then show ?case using assms(2-4) by (subst sync_scan.simps) simp
next
  case (Suc n)
  then obtain a ra where p: "p = Some a" and ra: "h a = Some ra"
    and w: "walk h (next ra) n = Some t"
    by (auto split: option.splits)
  show ?case
    using p ra Suc.IH [OF w] by (subst sync_scan.simps) simp
qed

text \<open>
  A record that holds local epoch 0 and can be reached from the head makes
  \<^verbatim>\<open>qsbr_sync\<close>, called by the owner of another record, return false for every target
  but 0.
\<close>

lemma sync_false_at_fresh_record:
  assumes w: "walk (heap s2) (list_head s2) n = Some t"
    and z: "map_option local_epoch (heap s2 t) = Some 0"
    and o: "tls_key s2 other = Some t'" "heap s2 t' = Some r'" "t' \<noteq> t"
    and tg: "0 < target"
  shows "qsbr_sync s2 other target =
      Some (Inr (False, s2\<lparr>heap := (heap s2)(t' \<mapsto> r'\<lparr>local_epoch := global_epoch s2\<rparr>)\<rparr>))"
proof -
  let ?h = "(heap s2)(t' \<mapsto> r'\<lparr>local_epoch := global_epoch s2\<rparr>)"
  obtain r where r: "heap s2 t = Some r" "local_epoch r = 0"
    using z by auto
  have cp: "qsbr_checkpoint s2 other = Inr (s2\<lparr>heap := ?h\<rparr>)"
    using o by (simp add: qsbr_checkpoint_def tls_record_def)
  have w': "walk ?h (list_head s2) n = Some t"
    using w walk_set_epoch [of "heap s2" t' r' "global_epoch s2" "list_head s2" n] o(2)
    by simp
  have r': "?h t = Some r" using r o(3) by simp
  have "local_epoch r \<noteq> 1" "local_epoch r < target"
    using tg r(2) by simp_all
  then have "sync_scan ?h target (list_head s2) = Some (Inr False)"
    by (rule sync_scan_stops [OF w' r'])
  then show ?thesis using cp by (simp add: qsbr_sync_def)
qed

section \<open>Registering twice\<close>

lemma walk_cycle_times:
  assumes "walk h p k = p"
  shows "walk h p (m * k) = p"
proof (induction m)
  case 0
  then show ?case by simp
next
  case (Suc m)
  have "walk h p (Suc m * k) = walk h (walk h p k) (m * k)"
    using walk_add [of h p k "m * k"] by simp
  then show ?case using assms Suc by simp
qed

lemma walk_cycle_mod:
  assumes "walk h p k = p"
  shows "walk h p n = walk h p (n mod k)"
proof -
  have "walk h p (n div k * k + n mod k) = walk h (walk h p (n div k * k)) (n mod k)"
    by (rule walk_add)
  then show ?thesis using walk_cycle_times [OF assms] by simp
qed

text \<open>
  If the scan returns, then somewhere along the links it has met the end of the list,
  memory that is not allocated, or a record that fails the test.
\<close>

lemma sync_scan_returns:
  assumes "sync_scan h target p = Some x"
  shows "\<exists>n. \<not> (\<exists>a r. walk h p n = Some a \<and> h a = Some r
                    \<and> (local_epoch r = 1 \<or> target \<le> local_epoch r))"
  using assms
proof (induction rule: sync_scan.raw_induct [rotated 1, consumes 1])
  case (1 scan h target p x)
  show ?case
  proof (cases p)
    case None
    then have "\<not> (\<exists>a r. walk h p 0 = Some a \<and> h a = Some r
                    \<and> (local_epoch r = 1 \<or> target \<le> local_epoch r))"
      by simp
    then show ?thesis by blast
  next
    case (Some a)
    show ?thesis
    proof (cases "h a")
      case None
      then have "\<not> (\<exists>a r. walk h p 0 = Some a \<and> h a = Some r
                    \<and> (local_epoch r = 1 \<or> target \<le> local_epoch r))"
        using Some by simp
      then show ?thesis by blast
    next
      case r: (Some r)
      show ?thesis
      proof (cases "local_epoch r \<noteq> 1 \<and> local_epoch r < target")
        case True
        then have "\<not> (\<exists>a r. walk h p 0 = Some a \<and> h a = Some r
                    \<and> (local_epoch r = 1 \<or> target \<le> local_epoch r))"
          using Some r by (auto simp: not_le)
        then show ?thesis by blast
      next
        case False
        with Some r 1(2) have "scan h target (next r) = Some x" by auto
        from 1(1) [OF this] obtain n where
          "\<not> (\<exists>a ra. walk h (next r) n = Some a \<and> h a = Some ra
                    \<and> (local_epoch ra = 1 \<or> target \<le> local_epoch ra))"
          by blast
        then have "\<not> (\<exists>a ra. walk h p (Suc n) = Some a \<and> h a = Some ra
                    \<and> (local_epoch ra = 1 \<or> target \<le> local_epoch ra))"
          using Some r by simp
        then show ?thesis by blast
      qed
    qed
  qed
qed

lemma sync_scan_cycle_diverges:
  assumes cyc: "walk h p k = p" and k: "0 < k"
    and good: "\<forall>i<k. \<exists>a r. walk h p i = Some a \<and> h a = Some r
                    \<and> (local_epoch r = 1 \<or> target \<le> local_epoch r)"
  shows "sync_scan h target p = None"
proof (rule ccontr)
  assume "sync_scan h target p \<noteq> None"
  then obtain x where "sync_scan h target p = Some x" by blast
  from sync_scan_returns [OF this] obtain n where
    n: "\<not> (\<exists>a r. walk h p n = Some a \<and> h a = Some r
                    \<and> (local_epoch r = 1 \<or> target \<le> local_epoch r))"
    by blast
  have "n mod k < k" using k by simp
  with good have "\<exists>a r. walk h p (n mod k) = Some a \<and> h a = Some r
                    \<and> (local_epoch r = 1 \<or> target \<le> local_epoch r)"
    by blast
  then show False using n walk_cycle_mod [OF cyc, of n] by simp
qed



lemma chain_drop: "chain h p (xs @ ys) \<Longrightarrow> chain h (walk h p (length xs)) ys"
  by (induction xs arbitrary: p) (auto split: option.splits)

lemma chain_length_unique: "chain h p as \<Longrightarrow> chain h p bs \<Longrightarrow> length as = length bs"
proof (induction as arbitrary: p bs)
  case Nil
  then show ?case by (cases bs) auto
next
  case (Cons a as)
  then show ?case by (cases bs) (auto split: option.splits)
qed

lemma chain_distinct: "chain h p as \<Longrightarrow> distinct as"
proof (induction as arbitrary: p)
  case Nil
  then show ?case by simp
next
  case (Cons a as)
  then obtain r where p: "p = Some a" and r: "h a = Some r" and rest: "chain h (next r) as"
    by (auto split: option.splits)
  have "a \<notin> set as"
  proof
    assume "a \<in> set as"
    then obtain xs ys where as: "as = xs @ a # ys"
      by (meson split_list)
    from chain_drop [of h "next r" xs "a # ys"] rest as
    have "chain h (walk h (next r) (length xs)) (a # ys)" by simp
    then have "chain h (next r) ys" using r by (auto split: option.splits)
    from chain_length_unique [OF rest this] as show False by simp
  qed
  then show ?case using Cons.IH [OF rest] by simp
qed

text \<open>
  Overwriting the record at \<open>t\<close> leaves the way from the head to \<open>t\<close> as it was.
\<close>

lemma walk_to_overwritten:
  assumes "chain h p (pre @ t # post)" and "t \<notin> set pre" and "i \<le> length pre"
  shows "walk (h(t := v)) p i = Some ((pre @ [t]) ! i)"
  using assms
proof (induction pre arbitrary: p i)
  case Nil
  then show ?case by simp
next
  case (Cons a pre)
  then obtain r where p: "p = Some a" and r: "h a = Some r"
    and rest: "chain h (next r) (pre @ t # post)"
    by (auto split: option.splits)
  show ?case
  proof (cases i)
    case 0
    then show ?thesis using p by simp
  next
    case (Suc j)
    have ne: "a \<noteq> t" using Cons.prems by auto
    have "t \<notin> set pre" "j \<le> length pre"
      using Cons.prems Suc by auto
    then have ih: "walk (h(t := v)) (next r) j = Some ((pre @ [t]) ! j)"
      by (rule Cons.IH [OF rest])
    have "walk (h(t := v)) p (Suc j) = walk (h(t := v)) (next r) j"
      using p r ne by simp
    also note ih
    finally have "walk (h(t := v)) p (Suc j) = Some ((pre @ [t]) ! j)" .
    moreover have "((a # pre) @ [t]) ! i = (pre @ [t]) ! j"
      using Suc by simp
    ultimately show ?thesis using Suc by metis
  qed
qed




section \<open>Unregistering, in general\<close>

text \<open>A scan that reaches memory which is not allocated does not return true.\<close>

lemma sync_scan_dangling:
  assumes "walk h p n = Some t" and "h t = None"
  shows "sync_scan h target p = Some (Inl MemFault) \<or> sync_scan h target p = Some (Inr False)"
  using assms(1)
proof (induction n arbitrary: p)
  case 0
  then show ?case using assms(2) by (subst sync_scan.simps) simp
next
  case (Suc n)
  then obtain a ra where p: "p = Some a" and ra: "h a = Some ra"
    and w: "walk h (next ra) n = Some t"
    by (auto split: option.splits)
  have "sync_scan h target p =
      (if local_epoch ra \<noteq> 1 \<and> local_epoch ra < target then Some (Inr False)
       else sync_scan h target (next ra))"
    using p ra by (subst sync_scan.simps) simp
  then show ?case
    using Suc.IH [OF w] by (cases "local_epoch ra \<noteq> 1 \<and> local_epoch ra < target") simp_all
qed

text \<open>
  Whenever a thread whose record is linked in a registry that is a proper list
  unregisters, the head and all other records are left as they are and the record is
  freed while it is still reachable from the head; from then on no scan of the
  registry returns true.
\<close>

theorem unregister_leaves_record_linked:
  assumes ch: "chain (heap s) (list_head s) (pre @ t # post)" and tls: "tls_key s tid = Some t"
  shows "\<exists>s'. qsbr_unregister s tid = Inr s'
     \<and> list_head s' = list_head s \<and> tls_key s' tid = None \<and> heap s' t = None
     \<and> (\<forall>a. a \<noteq> t \<longrightarrow> heap s' a = heap s a)
     \<and> walk (heap s') (list_head s') (length pre) = Some t
     \<and> (\<forall>target. sync_scan (heap s') target (list_head s') = Some (Inl MemFault)
           \<or> sync_scan (heap s') target (list_head s') = Some (Inr False))"
proof -
  let ?s' = "s\<lparr>tls_key := (tls_key s)(tid := None), heap := (heap s)(t := None)\<rparr>"
  have alloc: "heap s t \<noteq> None"
    using chain_allocated [OF ch, of t] by simp
  have un: "qsbr_unregister s tid = Inr ?s'"
    using tls alloc by (auto simp: qsbr_unregister_def)
  have "distinct (pre @ t # post)"
    using ch by (rule chain_distinct)
  then have tpre: "t \<notin> set pre" by simp
  have "walk ((heap s)(t := None)) (list_head s) (length pre) = Some ((pre @ [t]) ! length pre)"
    using ch tpre by (rule walk_to_overwritten) simp
  then have w: "walk (heap ?s') (list_head ?s') (length pre) = Some t"
    by simp
  have "heap ?s' t = None" by simp
  with w have "sync_scan (heap ?s') target (list_head ?s') = Some (Inl MemFault)
           \<or> sync_scan (heap ?s') target (list_head ?s') = Some (Inr False)" for target
    by (rule sync_scan_dangling)
  then show ?thesis using un w by (intro exI [of _ ?s']) simp
qed

theorem unregister_leaves_record_linked_witness:
  "chain (heap ex_two) (list_head ex_two) ([1] @ 0 # [])
   \<and> tls_key ex_two 0 = Some 0
   \<and> (\<exists>s'. qsbr_unregister ex_two 0 = Inr s' \<and> list_head s' = Some 1 \<and> heap s' 0 = None
         \<and> walk (heap s') (list_head s') 1 = Some 0)"
proof -
  have ch: "chain (heap ex_two) (list_head ex_two) ([1] @ 0 # [])"
    and tls: "tls_key ex_two 0 = Some 0"
    by (simp_all add: ex_two_def)
  from unregister_leaves_record_linked [OF ch tls]
  obtain s' where "qsbr_unregister ex_two 0 = Inr s'" "list_head s' = list_head ex_two"
    "heap s' 0 = None" "walk (heap s') (list_head s') (length [1 :: addr]) = Some 0"
    by blast
  then have "qsbr_unregister ex_two 0 = Inr s' \<and> list_head s' = Some 1 \<and> heap s' 0 = None
         \<and> walk (heap s') (list_head s') 1 = Some 0"
    by (simp add: ex_two_def)
  then show ?thesis using ch tls by blast
qed

section \<open>Who writes a record\<close>

lemma qsbr_checkpoint_frame:
  assumes "qsbr_checkpoint s u = Inr s'" and "tls_key s u \<noteq> Some b"
  shows "heap s' b = heap s b \<and> tls_key s' = tls_key s"
  using assms by (auto simp: qsbr_checkpoint_def tls_record_def split: option.splits)

lemma qsbr_thread_offline_frame:
  assumes "qsbr_thread_offline s u = Inr s'" and "tls_key s u \<noteq> Some b"
  shows "heap s' b = heap s b \<and> tls_key s' = tls_key s"
  using assms by (auto simp: qsbr_thread_offline_def tls_record_def split: option.splits)

lemma qsbr_thread_online_frame:
  assumes "qsbr_thread_online s u = Inr s'" and "tls_key s u \<noteq> Some b"
  shows "heap s' b = heap s b \<and> tls_key s' = tls_key s"
  using assms by (auto simp: qsbr_thread_online_def tls_record_def split: option.splits)

lemma qsbr_sync_frame:
  assumes "qsbr_sync s u target = Some (Inr (r, s'))" and "tls_key s u \<noteq> Some b"
  shows "heap s' b = heap s b \<and> tls_key s' = tls_key s"
proof -
  from assms(1) have "qsbr_checkpoint s u = Inr s'"
    by (auto simp: qsbr_sync_def split: sum.splits option.splits)
  then show ?thesis using assms(2) by (rule qsbr_checkpoint_frame)
qed

lemma wait_loop_frame:
  assumes "wait_loop s u e = Some x"
  shows "tls_key s u \<noteq> Some b \<longrightarrow>
         (\<forall>s'. x = Inr s' \<longrightarrow> heap s' b = heap s b \<and> tls_key s' = tls_key s)"
  using assms
proof (induction rule: wait_loop.raw_induct [rotated 1, consumes 1])
  case (1 wl s u e x)
  show ?case
  proof (intro impI allI)
    fix s' assume nb: "tls_key s u \<noteq> Some b" and x: "x = Inr s'"
    show "heap s' b = heap s b \<and> tls_key s' = tls_key s"
    proof (cases "qsbr_sync s u e")
      case None
      with 1(2) show ?thesis by simp
    next
      case (Some y)
      show ?thesis
      proof (cases y)
        case (Inl er)
        have "x = Inl er" using 1(2) unfolding Some Inl by simp
        with x show ?thesis by simp
      next
        case (Inr bs)
        obtain r s1 where bs: "bs = (r, s1)" by (cases bs)
        have f1: "heap s1 b = heap s b \<and> tls_key s1 = tls_key s"
          by (rule qsbr_sync_frame [of s u e r s1]) (simp_all add: Some Inr bs nb)
        have body: "(if r then Some (Inr s1) else wl s1 u e) = Some x"
          using 1(2) unfolding Some Inr bs by simp
        show ?thesis
        proof (cases r)
          case True
          with body x have "s' = s1" by simp
          then show ?thesis using f1 by simp
        next
          case False
          with body have w: "wl s1 u e = Some x" by simp
          have nb1: "tls_key s1 u \<noteq> Some b" using f1 nb by simp
          from 1(1) [OF w] nb1 x
          have "heap s' b = heap s1 b \<and> tls_key s' = tls_key s1" by blast
          then show ?thesis using f1 by simp
        qed
      qed
    qed
  qed
qed

lemma qsbr_wait_frame:
  assumes "qsbr_wait s u = Some (Inr s')" and "tls_key s u \<noteq> Some b"
  shows "heap s' b = heap s b \<and> tls_key s' = tls_key s"
proof -
  let ?s1 = "s\<lparr>global_epoch := global_epoch s + 1\<rparr>"
  have w: "wait_loop ?s1 u (global_epoch s + 1) = Some (Inr s')"
    using assms(1) by (simp add: qsbr_wait_def qsbr_barrier_def Let_def)
  have "tls_key ?s1 u \<noteq> Some b" using assms(2) by simp
  with wait_loop_frame [OF w, of b]
  have "heap s' b = heap ?s1 b \<and> tls_key s' = tls_key ?s1" by blast
  then show ?thesis by simp
qed

text \<open>
  A record is written by its owner only.  Let \<open>b\<close> be the record of the thread
  \<open>owner\<close> and of no other thread.  A call by another thread (or a barrier) that
  returns leaves the record and its ownership as they are, given that \<^verbatim>\<open>malloc\<close>, if
  the call is a registration, returns memory that is not allocated.
\<close>

theorem record_written_by_owner_only:
  assumes ex: "exec s c = Some s'" and other: "caller c \<noteq> Some owner"
    and own: "tls_key s owner = Some b"
    and sole: "\<forall>u. tls_key s u = Some b \<longrightarrow> u = owner"
    and live: "heap s b \<noteq> None"
    and fresh: "\<forall>u a. c = Register u (Some a) \<longrightarrow> heap s a = None"
  shows "heap s' b = heap s b \<and> tls_key s' owner = Some b
     \<and> (\<forall>u. tls_key s' u = Some b \<longrightarrow> u = owner)"
proof -
  have keep: "heap s' b = heap s b \<and> tls_key s' owner = Some b
     \<and> (\<forall>u. tls_key s' u = Some b \<longrightarrow> u = owner)"
    if h: "heap s' b = heap s b \<and> tls_key s' = tls_key s"
  proof -
    from h have e: "tls_key s' = tls_key s" by (rule conjunct2)
    from h have "heap s' b = heap s b" by (rule conjunct1)
    moreover have "tls_key s' owner = Some b" unfolding e by (rule own)
    moreover have "\<forall>u. tls_key s' u = Some b \<longrightarrow> u = owner" unfolding e by (rule sole)
    ultimately show ?thesis by blast
  qed
  show ?thesis
  proof (cases c)
  case (Register u m)
  then have u: "u \<noteq> owner" using other by simp
  then have nb: "tls_key s u \<noteq> Some b" using sole by blast
  show ?thesis
  proof (cases "tls_key s u")
    case None
    show ?thesis
    proof (cases m)
      case nomem: None
      then have "s' = s"
        using ex Register \<open>tls_key s u = None\<close> by (simp add: qsbr_register_def)
      then show ?thesis by (intro keep) simp
    next
      case (Some a)
      then have "heap s a = None" using fresh Register by simp
      then have ab: "a \<noteq> b" using live by auto
      have s': "s' = push_record a (s\<lparr>tls_key := (tls_key s)(u \<mapsto> a)\<rparr>)"
        using ex Register None Some by (simp add: qsbr_register_def)
      have h: "heap s' b = heap s b"
        using ab by (simp add: s' push_record_def)
      have k: "tls_key s' = (tls_key s)(u \<mapsto> a)"
        by (simp add: s' push_record_def)
      have "tls_key s' owner = Some b" using k u own by simp
      moreover have "v = owner" if "tls_key s' v = Some b" for v
      proof -
        have "v \<noteq> u" using that k ab by auto
        then have "tls_key s v = Some b" using that k by simp
        then show ?thesis using sole by blast
      qed
      ultimately show ?thesis using h by blast
    qed
  next
    case (Some t)
    then have tb: "t \<noteq> b" using nb by simp
    have s': "s' = push_record t s"
      using ex Register Some by (auto simp: qsbr_register_def split: option.splits)
    have "heap s' b = heap s b" "tls_key s' = tls_key s"
      using tb by (simp_all add: s' push_record_def)
    then show ?thesis by (intro keep) simp
  qed
next
  case (Unregister u)
  then have u: "u \<noteq> owner" using other by simp
  then have nb: "tls_key s u \<noteq> Some b" using sole by blast
  show ?thesis
  proof (cases "tls_key s u")
    case None
    then have "s' = s"
      using ex Unregister by (simp add: qsbr_unregister_def returned_def)
    then show ?thesis by (intro keep) simp
  next
    case (Some t)
    then have tb: "t \<noteq> b" using nb by simp
    have s': "s' = s\<lparr>tls_key := (tls_key s)(u := None), heap := (heap s)(t := None)\<rparr>"
      using ex Unregister Some
      by (auto simp: qsbr_unregister_def returned_def split: option.splits)
    have h: "heap s' b = heap s b" using tb by (simp add: s')
    have k: "tls_key s' = (tls_key s)(u := None)" by (simp add: s')
    have "tls_key s' owner = Some b" using k u own by simp
    moreover have "v = owner" if "tls_key s' v = Some b" for v
    proof -
      have "v \<noteq> u" using that k by auto
      then have "tls_key s v = Some b" using that k by simp
      then show ?thesis using sole by blast
    qed
    ultimately show ?thesis using h by blast
  qed
next
  case (Checkpoint u)
  then have "u \<noteq> owner" using other by simp
  then have nb: "tls_key s u \<noteq> Some b" using sole by blast
  have "qsbr_checkpoint s u = Inr s'"
    using ex Checkpoint by (auto simp: returned_def split: sum.splits)
  from qsbr_checkpoint_frame [OF this nb] show ?thesis by (rule keep)
next
  case (GetEpoch u)
  then have "s' = s" using ex by (auto split: sum.splits)
  then show ?thesis by (intro keep) simp
next
  case Barrier
  then have "s' = s\<lparr>global_epoch := global_epoch s + 1\<rparr>"
    using ex by (simp add: qsbr_barrier_def Let_def)
  then show ?thesis by (intro keep) simp
next
  case (Wait u)
  then have "u \<noteq> owner" using other by simp
  then have nb: "tls_key s u \<noteq> Some b" using sole by blast
  have "qsbr_wait s u = Some (Inr s')"
    using ex Wait by (auto simp: returned_def split: option.splits sum.splits)
  from qsbr_wait_frame [OF this nb] show ?thesis by (rule keep)
next
  case (Sync u target)
  then have "u \<noteq> owner" using other by simp
  then have nb: "tls_key s u \<noteq> Some b" using sole by blast
  obtain r where "qsbr_sync s u target = Some (Inr (r, s'))"
    using ex Sync by (auto split: option.splits sum.splits)
  from qsbr_sync_frame [OF this nb] show ?thesis by (rule keep)
next
  case (ThreadOffline u)
  then have "u \<noteq> owner" using other by simp
  then have nb: "tls_key s u \<noteq> Some b" using sole by blast
  have "qsbr_thread_offline s u = Inr s'"
    using ex ThreadOffline by (auto simp: returned_def split: sum.splits)
  from qsbr_thread_offline_frame [OF this nb] show ?thesis by (rule keep)
next
  case (ThreadOnline u)
  then have "u \<noteq> owner" using other by simp
  then have nb: "tls_key s u \<noteq> Some b" using sole by blast
  have "qsbr_thread_online s u = Inr s'"
    using ex ThreadOnline by (auto simp: returned_def split: sum.splits)
  from qsbr_thread_online_frame [OF this nb] show ?thesis by (rule keep)
  qed
qed


theorem record_written_by_owner_only_witness:
  "(\<exists>s'. exec ex_two (Register 2 (Some 2)) = Some s'
      \<and> heap s' 1 = heap ex_two 1 \<and> tls_key s' 1 = Some 1)
   \<and> caller (Register 2 (Some 2)) \<noteq> Some 1
   \<and> tls_key ex_two 1 = Some 1
   \<and> heap ex_two 1 \<noteq> None
   \<and> heap ex_two 2 = None"
proof -
  obtain s' where ex: "exec ex_two (Register 2 (Some 2)) = Some s'"
    by (simp add: qsbr_register_def ex_two_def)
  have other: "caller (Register 2 (Some 2)) \<noteq> Some 1" by simp
  have own: "tls_key ex_two 1 = Some 1" by (simp add: ex_two_def)
  have sole: "\<forall>u. tls_key ex_two u = Some 1 \<longrightarrow> u = 1" by (simp add: ex_two_def)
  have live: "heap ex_two 1 \<noteq> None" by (simp add: ex_two_def)
  have f2: "heap ex_two 2 = None" by (simp add: ex_two_def)
  then have fresh: "\<forall>u a. Register 2 (Some 2) = Register u (Some a) \<longrightarrow> heap ex_two a = None"
    by simp
  from record_written_by_owner_only [OF ex other own sole live fresh]
  have "heap s' 1 = heap ex_two 1 \<and> tls_key s' 1 = Some 1" by blast
  then show ?thesis using ex other own live f2 by blast
qed

section \<open>A freshly registered thread\<close>

lemma keys_okD:
  assumes "keys_ok s"
  shows "tls_key s u = Some p \<Longrightarrow> heap s p \<noteq> None"
    and "tls_key s u = Some p \<Longrightarrow> tls_key s v = Some p \<Longrightarrow> u = v"
  using assms unfolding keys_ok_def by blast+

lemma walk_fresh_block:
  assumes "walk h p n = Some t" and "h a = None"
  shows "walk (h(a \<mapsto> v)) p n = Some t"
  using assms(1)
proof (induction n arbitrary: p)
  case 0
  then show ?case by simp
next
  case (Suc n)
  then obtain b rb where p: "p = Some b" and rb: "h b = Some rb"
    and w: "walk h (next rb) n = Some t"
    by (auto split: option.splits)
  have ne: "b \<noteq> a" using rb assms(2) by auto
  have "walk (h(a \<mapsto> v)) p (Suc n) = walk (h(a \<mapsto> v)) (next rb) n"
    using p rb ne by simp
  also have "\<dots> = Some t" using w by (rule Suc.IH)
  finally show ?case .
qed

text \<open>Writing the local epoch of another thread's record keeps the fresh record linked.\<close>

lemma fresh_linked_epoch_write:
  assumes fl: "fresh_linked tid t s" and u: "tls_key s u = Some tu" "u \<noteq> tid"
    and r: "heap s tu = Some r"
  shows "fresh_linked tid t (s\<lparr>heap := (heap s)(tu \<mapsto> r\<lparr>local_epoch := e\<rparr>)\<rparr>)"
proof -
  let ?h = "(heap s)(tu \<mapsto> r\<lparr>local_epoch := e\<rparr>)"
  from fl have k: "keys_ok s" and own: "tls_key s tid = Some t"
    and z: "map_option local_epoch (heap s t) = Some 0"
    and w: "\<exists>n. walk (heap s) (list_head s) n = Some t"
    unfolding fresh_linked_def by blast+
  have ne: "tu \<noteq> t"
    using keys_okD(2) [OF k u(1), of tid] own u(2) by blast
  have alloc: "?h p \<noteq> None" if "heap s p \<noteq> None" for p
    using that by simp
  have k': "keys_ok (s\<lparr>heap := ?h\<rparr>)"
    unfolding keys_ok_def
  proof (intro conjI allI impI)
    fix v p assume "tls_key (s\<lparr>heap := ?h\<rparr>) v = Some p"
    then have "tls_key s v = Some p" by simp
    then have "heap s p \<noteq> None" by (rule keys_okD(1) [OF k])
    then show "heap (s\<lparr>heap := ?h\<rparr>) p \<noteq> None" by simp
  next
    fix v v' p
    assume "tls_key (s\<lparr>heap := ?h\<rparr>) v = Some p \<and> tls_key (s\<lparr>heap := ?h\<rparr>) v' = Some p"
    then have "tls_key s v = Some p" "tls_key s v' = Some p" by simp_all
    then show "v = v'" by (rule keys_okD(2) [OF k])
  qed
  from w obtain n where "walk (heap s) (list_head s) n = Some t" ..
  then have "walk ?h (list_head s) n = Some t"
    using walk_set_epoch [of "heap s" tu r e "list_head s" n] r by simp
  then have w': "\<exists>n. walk (heap (s\<lparr>heap := ?h\<rparr>)) (list_head (s\<lparr>heap := ?h\<rparr>)) n = Some t"
    by auto
  have z': "map_option local_epoch (heap (s\<lparr>heap := ?h\<rparr>) t) = Some 0"
    using z ne by simp
  show ?thesis
    unfolding fresh_linked_def using k' own z' w' by simp
qed

lemma fresh_linked_global:
  "fresh_linked tid t (s\<lparr>global_epoch := g\<rparr>) = fresh_linked tid t s"
  by (simp add: fresh_linked_def keys_ok_def)

text \<open>A thread without a record registers with a block that is not allocated.\<close>

lemma fresh_linked_register_new:
  assumes fl: "fresh_linked tid t s" and u: "tls_key s u = None" and a: "heap s a = None"
  shows "fresh_linked tid t (push_record a (s\<lparr>tls_key := (tls_key s)(u \<mapsto> a)\<rparr>))"
proof -
  let ?v = "\<lparr>local_epoch = 0, next = list_head s\<rparr>"
  let ?h = "(heap s)(a \<mapsto> ?v)"
  let ?k = "(tls_key s)(u \<mapsto> a)"
  let ?s' = "push_record a (s\<lparr>tls_key := ?k\<rparr>)"
  from fl have k: "keys_ok s" and own: "tls_key s tid = Some t"
    and z: "map_option local_epoch (heap s t) = Some 0"
    and w: "\<exists>n. walk (heap s) (list_head s) n = Some t"
    unfolding fresh_linked_def by blast+
  have st: "tls_key ?s' = ?k" "heap ?s' = ?h" "list_head ?s' = Some a"
    by (simp_all add: push_record_def)
  have ut: "u \<noteq> tid" using u own by auto
  have at: "a \<noteq> t" using a z by auto
  have nokey: "tls_key s v \<noteq> Some a" for v
    using keys_okD(1) [OF k, of v a] a by blast
  have k': "keys_ok ?s'"
    unfolding keys_ok_def st
  proof (intro conjI allI impI)
    fix v p assume vp: "?k v = Some p"
    show "?h p \<noteq> None"
    proof (cases "v = u")
      case True
      then have "p = a" using vp by simp
      then show ?thesis by simp
    next
      case False
      then have "tls_key s v = Some p" using vp by simp
      then have "heap s p \<noteq> None" by (rule keys_okD(1) [OF k])
      then show ?thesis by simp
    qed
  next
    fix v v' p assume both: "?k v = Some p \<and> ?k v' = Some p"
    show "v = v'"
    proof (cases "v = u")
      case True
      then have pa: "p = a" using both by simp
      have "v' = u"
      proof (rule ccontr)
        assume "v' \<noteq> u"
        then have "tls_key s v' = Some a" using both pa by simp
        then show False using nokey by blast
      qed
      then show ?thesis using True by simp
    next
      case False
      then have kv: "tls_key s v = Some p" using both by simp
      have "v' \<noteq> u"
      proof
        assume "v' = u"
        then have "p = a" using both by simp
        then show False using kv nokey by blast
      qed
      then have "tls_key s v' = Some p" using both by simp
      with kv show ?thesis by (rule keys_okD(2) [OF k])
    qed
  qed
  from w obtain n where "walk (heap s) (list_head s) n = Some t" ..
  then have "walk ?h (list_head s) n = Some t"
    using a by (rule walk_fresh_block)
  moreover have "walk ?h (Some a) (Suc n) = walk ?h (list_head s) n"
    by simp
  ultimately have "walk ?h (Some a) (Suc n) = Some t" by (simp only:)
  then have w': "\<exists>n. walk ?h (Some a) n = Some t" by blast
  have z': "map_option local_epoch (?h t) = Some 0"
    using z at by simp
  have own': "?k tid = Some t" using own ut by simp
  show ?thesis
    unfolding fresh_linked_def st using k' own' z' w' by blast
qed

lemma qsbr_checkpoint_shape:
  assumes "qsbr_checkpoint s u = Inr s'"
  shows "\<exists>tu r e. tls_key s u = Some tu \<and> heap s tu = Some r
           \<and> s' = s\<lparr>heap := (heap s)(tu \<mapsto> r\<lparr>local_epoch := e\<rparr>)\<rparr>"
  using assms by (auto simp: qsbr_checkpoint_def tls_record_def split: option.splits)

lemma qsbr_thread_offline_shape:
  assumes "qsbr_thread_offline s u = Inr s'"
  shows "\<exists>tu r e. tls_key s u = Some tu \<and> heap s tu = Some r
           \<and> s' = s\<lparr>heap := (heap s)(tu \<mapsto> r\<lparr>local_epoch := e\<rparr>)\<rparr>"
  using assms by (auto simp: qsbr_thread_offline_def tls_record_def split: option.splits)

lemma qsbr_thread_online_shape:
  assumes "qsbr_thread_online s u = Inr s'"
  shows "\<exists>tu r e. tls_key s u = Some tu \<and> heap s tu = Some r
           \<and> s' = s\<lparr>heap := (heap s)(tu \<mapsto> r\<lparr>local_epoch := e\<rparr>)\<rparr>"
  using assms by (auto simp: qsbr_thread_online_def tls_record_def split: option.splits)

lemma fresh_linked_shape:
  assumes fl: "fresh_linked tid t s" and u: "u \<noteq> tid"
    and sh: "\<exists>tu r e. tls_key s u = Some tu \<and> heap s tu = Some r
           \<and> s' = s\<lparr>heap := (heap s)(tu \<mapsto> r\<lparr>local_epoch := e\<rparr>)\<rparr>"
  shows "fresh_linked tid t s'"
proof -
  from sh obtain tu r e where a: "tls_key s u = Some tu" "heap s tu = Some r"
    and s': "s' = s\<lparr>heap := (heap s)(tu \<mapsto> r\<lparr>local_epoch := e\<rparr>)\<rparr>"
    by blast
  show ?thesis unfolding s' using fl a(1) u a(2) by (rule fresh_linked_epoch_write)
qed

lemma fresh_linked_sync:
  assumes fl: "fresh_linked tid t s" and u: "u \<noteq> tid"
    and sy: "qsbr_sync s u target = Some (Inr (b, s'))"
  shows "fresh_linked tid t s'"
proof -
  from sy have "qsbr_checkpoint s u = Inr s'"
    by (auto simp: qsbr_sync_def split: sum.splits option.splits)
  then show ?thesis
    using fl u qsbr_checkpoint_shape fresh_linked_shape by blast
qed

lemma fresh_linked_wait_loop:
  assumes "wait_loop s u e = Some x"
  shows "fresh_linked tid t s \<and> u \<noteq> tid \<longrightarrow> (\<forall>s'. x = Inr s' \<longrightarrow> fresh_linked tid t s')"
  using assms
proof (induction rule: wait_loop.raw_induct [rotated 1, consumes 1])
  case (1 wl s u e x)
  show ?case
  proof (intro impI allI)
    fix s' assume pre: "fresh_linked tid t s \<and> u \<noteq> tid" and x: "x = Inr s'"
    show "fresh_linked tid t s'"
    proof (cases "qsbr_sync s u e")
      case None
      with 1(2) show ?thesis by simp
    next
      case (Some y)
      show ?thesis
      proof (cases y)
        case (Inl er)
        have "x = Inl er" using 1(2) unfolding Some Inl by simp
        with x show ?thesis by simp
      next
        case (Inr bs)
        obtain b s1 where bs: "bs = (b, s1)" by (cases bs)
        have sy: "qsbr_sync s u e = Some (Inr (b, s1))"
          by (simp add: Some Inr bs)
        have f1: "fresh_linked tid t s1"
          using pre sy fresh_linked_sync by blast
        have body: "(if b then Some (Inr s1) else wl s1 u e) = Some x"
          using 1(2) unfolding Some Inr bs by simp
        show ?thesis
        proof (cases b)
          case True
          with body x have "s' = s1" by simp
          then show ?thesis using f1 by simp
        next
          case False
          with body have w: "wl s1 u e = Some x" by simp
          from 1(1) [OF w] f1 pre x show ?thesis by blast
        qed
      qed
    qed
  qed
qed

lemma fresh_linked_wait:
  assumes fl: "fresh_linked tid t s" and u: "u \<noteq> tid"
    and wt: "qsbr_wait s u = Some (Inr s')"
  shows "fresh_linked tid t s'"
proof -
  let ?s1 = "s\<lparr>global_epoch := global_epoch s + 1\<rparr>"
  have w: "wait_loop ?s1 u (global_epoch s + 1) = Some (Inr s')"
    using wt by (simp add: qsbr_wait_def qsbr_barrier_def Let_def)
  have "fresh_linked tid t ?s1" using fl by (simp only: fresh_linked_global)
  with fresh_linked_wait_loop [OF w, of tid t] u show ?thesis by blast
qed

text \<open>
  A call by another thread that leaves the registry append-only keeps the fresh record
  linked.
\<close>

lemma fresh_linked_exec:
  assumes fl: "fresh_linked tid t s" and ex: "exec s c = Some s'"
    and other: "caller c = Some tid \<longrightarrow> c = GetEpoch tid" and ao: "append_only_call s c"
  shows "fresh_linked tid t s'"
proof (cases c)
  case (Register u m)
  then have none: "tls_key s u = None" using ao by simp
  show ?thesis
  proof (cases m)
    case None
    then have "s' = s" using ex Register none by (simp add: qsbr_register_def)
    then show ?thesis using fl by simp
  next
    case (Some a)
    then have "heap s a = None" using ao Register by simp
    moreover have "s' = push_record a (s\<lparr>tls_key := (tls_key s)(u \<mapsto> a)\<rparr>)"
      using ex Register none Some by (simp add: qsbr_register_def)
    ultimately show ?thesis using fl none fresh_linked_register_new by blast
  qed
next
  case (Unregister u)
  then have "tls_key s u = None" using ao by simp
  then have "s' = s" using ex Unregister by (simp add: qsbr_unregister_def returned_def)
  then show ?thesis using fl by simp
next
  case (Checkpoint u)
  then have u: "u \<noteq> tid" using other by auto
  have "qsbr_checkpoint s u = Inr s'"
    using ex Checkpoint by (auto simp: returned_def split: sum.splits)
  from fresh_linked_shape [OF fl u qsbr_checkpoint_shape [OF this]] show ?thesis .
next
  case (GetEpoch u)
  then have "s' = s" using ex by (auto split: sum.splits)
  then show ?thesis using fl by simp
next
  case Barrier
  then have "s' = s\<lparr>global_epoch := global_epoch s + 1\<rparr>"
    using ex by (simp add: qsbr_barrier_def Let_def)
  then show ?thesis using fl by (simp only: fresh_linked_global)
next
  case (Wait u)
  then have u: "u \<noteq> tid" using other by auto
  have "qsbr_wait s u = Some (Inr s')"
    using ex Wait by (auto simp: returned_def split: option.splits sum.splits)
  from fresh_linked_wait [OF fl u this] show ?thesis .
next
  case (Sync u target)
  then have u: "u \<noteq> tid" using other by auto
  obtain b where "qsbr_sync s u target = Some (Inr (b, s'))"
    using ex Sync by (auto split: option.splits sum.splits)
  from fresh_linked_sync [OF fl u this] show ?thesis .
next
  case (ThreadOffline u)
  then have u: "u \<noteq> tid" using other by auto
  have "qsbr_thread_offline s u = Inr s'"
    using ex ThreadOffline by (auto simp: returned_def split: sum.splits)
  from fresh_linked_shape [OF fl u qsbr_thread_offline_shape [OF this]] show ?thesis .
next
  case (ThreadOnline u)
  then have u: "u \<noteq> tid" using other by auto
  have "qsbr_thread_online s u = Inr s'"
    using ex ThreadOnline by (auto simp: returned_def split: sum.splits)
  from fresh_linked_shape [OF fl u qsbr_thread_online_shape [OF this]] show ?thesis .
qed

lemma fresh_linked_run:
  assumes "fresh_linked tid t s" and "run s cs = Some s'"
    and "\<forall>c\<in>set cs. caller c = Some tid \<longrightarrow> c = GetEpoch tid" and "append_only s cs"
  shows "fresh_linked tid t s'"
  using assms
proof (induction cs arbitrary: s)
  case Nil
  then show ?case by simp
next
  case (Cons c cs)
  from Cons.prems(2) obtain s1 where e: "exec s c = Some s1" and r: "run s1 cs = Some s'"
    by (auto split: option.splits)
  have c: "caller c = Some tid \<longrightarrow> c = GetEpoch tid" "append_only_call s c"
    "append_only s1 cs" "\<forall>c\<in>set cs. caller c = Some tid \<longrightarrow> c = GetEpoch tid"
    using Cons.prems(3,4) e by simp_all
  have "fresh_linked tid t s1"
    using Cons.prems(1) e c(1,2) by (rule fresh_linked_exec)
  then show ?case using r c(4) c(3) by (rule Cons.IH)
qed

text \<open>The registration itself links the caller's record with local epoch 0.\<close>

lemma fresh_linked_register:
  assumes k: "keys_ok s" and m: "\<forall>a. m = Some a \<longrightarrow> heap s a = None"
    and reg: "qsbr_register s tid m = Inr s1"
  shows "\<exists>t. fresh_linked tid t s1 \<and> list_head s1 = Some t"
proof (cases "tls_key s tid")
  case None
  then obtain a where ma: "m = Some a"
    and s1: "s1 = push_record a (s\<lparr>tls_key := (tls_key s)(tid \<mapsto> a)\<rparr>)"
    using reg by (auto simp: qsbr_register_def split: option.splits)
  have a: "heap s a = None" using m ma by simp
  have nokey: "tls_key s v \<noteq> Some a" for v
    using keys_okD(1) [OF k, of v a] a by blast
  let ?k = "(tls_key s)(tid \<mapsto> a)"
  let ?h = "(heap s)(a \<mapsto> \<lparr>local_epoch = 0, next = list_head s\<rparr>)"
  have st: "tls_key s1 = ?k" "heap s1 = ?h" "list_head s1 = Some a"
    by (simp_all add: s1 push_record_def)
  have k': "keys_ok s1"
    unfolding keys_ok_def st
  proof (intro conjI allI impI)
    fix v p assume vp: "?k v = Some p"
    show "?h p \<noteq> None"
    proof (cases "v = tid")
      case True
      then have "p = a" using vp by simp
      then show ?thesis by simp
    next
      case False
      then have "tls_key s v = Some p" using vp by simp
      then have "heap s p \<noteq> None" by (rule keys_okD(1) [OF k])
      then show ?thesis by simp
    qed
  next
    fix v v' p assume both: "?k v = Some p \<and> ?k v' = Some p"
    show "v = v'"
    proof (cases "v = tid")
      case True
      then have pa: "p = a" using both by simp
      have "v' = tid"
      proof (rule ccontr)
        assume "v' \<noteq> tid"
        then have "tls_key s v' = Some a" using both pa by simp
        then show False using nokey by blast
      qed
      then show ?thesis using True by simp
    next
      case False
      then have kv: "tls_key s v = Some p" using both by simp
      have "v' \<noteq> tid"
      proof
        assume "v' = tid"
        then have "p = a" using both by simp
        then show False using kv nokey by blast
      qed
      then have "tls_key s v' = Some p" using both by simp
      with kv show ?thesis by (rule keys_okD(2) [OF k])
    qed
  qed
  have "walk ?h (Some a) 0 = Some a" by simp
  then have w: "\<exists>n. walk ?h (Some a) n = Some a" by blast
  have "fresh_linked tid a s1"
    unfolding fresh_linked_def st using k' w by simp
  then show ?thesis using st(3) by blast
next
  case (Some t)
  then have s1: "s1 = push_record t s"
    using reg by (auto simp: qsbr_register_def split: option.splits)
  let ?h = "(heap s)(t \<mapsto> \<lparr>local_epoch = 0, next = list_head s\<rparr>)"
  have st: "tls_key s1 = tls_key s" "heap s1 = ?h" "list_head s1 = Some t"
    by (simp_all add: s1 push_record_def)
  have k': "keys_ok s1"
    unfolding keys_ok_def st
  proof (intro conjI allI impI)
    fix v p assume "tls_key s v = Some p"
    then have "heap s p \<noteq> None" by (rule keys_okD(1) [OF k])
    then show "?h p \<noteq> None" by simp
  next
    fix v v' p assume "tls_key s v = Some p \<and> tls_key s v' = Some p"
    then have "tls_key s v = Some p" "tls_key s v' = Some p" by simp_all
    then show "v = v'" by (rule keys_okD(2) [OF k])
  qed
  have "walk ?h (Some t) 0 = Some t" by simp
  then have w: "\<exists>n. walk ?h (Some t) n = Some t" by blast
  have "fresh_linked tid t s1"
    unfolding fresh_linked_def st using k' w Some by simp
  then show ?thesis using st(3) by blast
qed

text \<open>
  Claim C9, as the code has it.  Let every key point to an allocated record of its
  own, and let \<^verbatim>\<open>qsbr_register\<close>, called by thread \<open>tid\<close>, return 0 (\<^verbatim>\<open>malloc\<close>, if
  called, returning memory that is not allocated).  The caller's record then holds
  local epoch 0.  Now let any calls follow in which thread \<open>tid\<close> does nothing but
  read its epoch, and which leave the registry append-only: no thread frees a record by
  \<^verbatim>\<open>qsbr_unregister\<close>, no thread that has a record registers again, and \<^verbatim>\<open>malloc\<close>
  returns memory that is not allocated.  Then the record of \<open>tid\<close> still holds 0, and
  \<^verbatim>\<open>qsbr_sync\<close> called by any other thread that has a record returns false for every
  target other than 0, so for every target that a barrier returns before the counter
  wraps (these are at least 3).
\<close>

theorem fresh_thread_blocks_sync:
  assumes k: "keys_ok s" and m: "\<forall>a. m = Some a \<longrightarrow> heap s a = None"
    and reg: "qsbr_register s tid m = Inr s1"
    and run: "run s1 cs = Some s2"
    and quiet: "\<forall>c\<in>set cs. caller c = Some tid \<longrightarrow> c = GetEpoch tid"
    and ao: "append_only s1 cs"
    and other: "other \<noteq> tid" "tls_key s2 other \<noteq> None"
    and tg: "0 < target"
  shows "qsbr_get_epoch s1 tid = Inr 0 \<and> qsbr_get_epoch s2 tid = Inr 0
     \<and> (\<exists>s3. qsbr_sync s2 other target = Some (Inr (False, s3)))"
proof -
  from fresh_linked_register [OF k m reg] obtain t where f1: "fresh_linked tid t s1"
    by blast
  have f2: "fresh_linked tid t s2"
    using f1 run quiet ao by (rule fresh_linked_run)
  have ge: "qsbr_get_epoch u tid = Inr 0" if "fresh_linked tid t u" for u
    using that by (auto simp: fresh_linked_def qsbr_get_epoch_def tls_record_def)
  from f2 have k2: "keys_ok s2" and own: "tls_key s2 tid = Some t"
    and z: "map_option local_epoch (heap s2 t) = Some 0"
    and w: "\<exists>n. walk (heap s2) (list_head s2) n = Some t"
    unfolding fresh_linked_def by blast+
  from other(2) obtain t' where t': "tls_key s2 other = Some t'" by blast
  then obtain r' where r': "heap s2 t' = Some r'"
    using keys_okD(1) [OF k2 t'] by blast
  have ne: "t' \<noteq> t"
    using keys_okD(2) [OF k2 t', of tid] own other(1) by blast
  from w obtain n where "walk (heap s2) (list_head s2) n = Some t" ..
  then have "qsbr_sync s2 other target =
      Some (Inr (False, s2\<lparr>heap := (heap s2)(t' \<mapsto> r'\<lparr>local_epoch := global_epoch s2\<rparr>)\<rparr>))"
    using z t' r' ne tg by (rule sync_false_at_fresh_record)
  then show ?thesis using ge [OF f1] ge [OF f2] by blast
qed

theorem fresh_thread_blocks_sync_witness:
  "keys_ok ex_two \<and> heap ex_two 2 = None
   \<and> (\<exists>s1 s2. qsbr_register ex_two 2 (Some 2) = Inr s1
        \<and> run s1 [Register 3 (Some 3), GetEpoch 2, Barrier, Checkpoint 0] = Some s2
        \<and> append_only s1 [Register 3 (Some 3), GetEpoch 2, Barrier, Checkpoint 0]
        \<and> tls_key s2 0 \<noteq> None
        \<and> qsbr_get_epoch s2 2 = Inr 0
        \<and> (\<exists>s3. qsbr_sync s2 0 4 = Some (Inr (False, s3))))
   \<and> (0 :: tid) \<noteq> 2 \<and> (0 :: qsbr_epoch_t) < 4"
proof -
  let ?cs = "[Register 3 (Some 3), GetEpoch 2, Barrier, Checkpoint 0]"
  have k: "keys_ok ex_two"
    by (auto simp: keys_ok_def ex_two_def split: if_splits)
  have f: "heap ex_two 2 = None" by (simp add: ex_two_def)
  then have m: "\<forall>a. Some (2 :: addr) = Some a \<longrightarrow> heap ex_two a = None" by simp
  obtain s1 where reg: "qsbr_register ex_two 2 (Some 2) = Inr s1"
    by (simp add: qsbr_register_def ex_two_def)
  have s1: "s1 = push_record 2 (ex_two\<lparr>tls_key := (tls_key ex_two)(2 \<mapsto> 2)\<rparr>)"
    using reg by (simp add: qsbr_register_def ex_two_def)
  obtain s2 where run: "run s1 ?cs = Some s2"
    by (simp add: s1 push_record_def ex_two_def qsbr_register_def qsbr_barrier_def
        qsbr_checkpoint_def qsbr_get_epoch_def tls_record_def returned_def)
  have ao: "append_only s1 ?cs"
    by (simp add: s1 push_record_def ex_two_def qsbr_register_def qsbr_barrier_def
        qsbr_checkpoint_def qsbr_get_epoch_def tls_record_def returned_def)
  have quiet: "\<forall>c\<in>set ?cs. caller c = Some 2 \<longrightarrow> c = GetEpoch 2" by simp
  have o: "(0 :: tid) \<noteq> 2" "tls_key s2 0 \<noteq> None"
    using run
    by (auto simp: s1 push_record_def ex_two_def qsbr_register_def qsbr_barrier_def
        qsbr_checkpoint_def qsbr_get_epoch_def tls_record_def returned_def)
  have tg: "(0 :: qsbr_epoch_t) < 4" by simp
  from fresh_thread_blocks_sync [OF k m reg run quiet ao o tg]
  show ?thesis using k f reg run ao o tg by blast
qed

text \<open>A record that is the head and points to itself.\<close>

lemma self_loop_sync:
  assumes "tls_key s u = Some t" and "heap s t = Some r" and "list_head s = Some t"
    and "next r = Some t" and "target \<le> global_epoch s"
  shows "qsbr_sync s u target = None"
proof -
  let ?h = "(heap s)(t \<mapsto> r\<lparr>local_epoch := global_epoch s\<rparr>)"
  have cp: "qsbr_checkpoint s u = Inr (s\<lparr>heap := ?h\<rparr>)"
    using assms(1,2) by (simp add: qsbr_checkpoint_def tls_record_def)
  have cyc: "walk ?h (Some t) 1 = Some t"
    using assms(4) by simp
  have good: "\<forall>i<(1::nat). \<exists>a ra. walk ?h (Some t) i = Some a \<and> ?h a = Some ra
                    \<and> (local_epoch ra = 1 \<or> target \<le> local_epoch ra)"
    using assms(5) by simp
  have "sync_scan ?h target (Some t) = None"
    using cyc _ good by (rule sync_scan_cycle_diverges) simp
  then show ?thesis using cp assms(3) by (simp add: qsbr_sync_def)
qed

text \<open>
  The claim as it was stated fails when the registry does not stay append-only, though
  the fresh thread makes no call.  Thread 0 registers, thread 1 registers twice and a
  barrier is issued: the record of thread 1 now points to itself, the record of thread
  0 (local epoch 0) is no longer reached, and \<^verbatim>\<open>qsbr_sync\<close> called by thread 1 with
  target 3 does not return.  Or threads 0, 1 and 2 register and thread 2 unregisters:
  thread 1 has local epoch 0, and \<^verbatim>\<open>qsbr_sync\<close> called by thread 0 reads the freed
  record at the head.
\<close>

theorem fresh_thread_sync_counterexample:
  "map_option (\<lambda>s. qsbr_get_epoch s 0)
     (run (the (qsbr_create True True))
        [Register 0 (Some 0), Register 1 (Some 1), Register 1 None, Barrier]) = Some (Inr 0)
   \<and> map_option (\<lambda>s. qsbr_sync s 1 3)
     (run (the (qsbr_create True True))
        [Register 0 (Some 0), Register 1 (Some 1), Register 1 None, Barrier]) = Some None
   \<and> map_option (\<lambda>s. qsbr_get_epoch s 1)
     (run (the (qsbr_create True True))
        [Register 0 (Some 0), Register 1 (Some 1), Register 2 (Some 2), Unregister 2])
     = Some (Inr 0)
   \<and> map_option (\<lambda>s. qsbr_sync s 0 3)
     (run (the (qsbr_create True True))
        [Register 0 (Some 0), Register 1 (Some 1), Register 2 (Some 2), Unregister 2])
     = Some (Some (Inl MemFault))"
proof -
  obtain s where r: "run (the (qsbr_create True True))
        [Register 0 (Some 0), Register 1 (Some 1), Register 1 None, Barrier] = Some s"
    and f: "tls_key s 1 = Some 1" "heap s 1 = Some \<lparr>local_epoch = 0, next = Some 1\<rparr>"
      "list_head s = Some 1" "global_epoch s = 3" "qsbr_get_epoch s 0 = Inr 0"
    by (simp add: qsbr_create_def calloc_qsbr_def qsbr_register_def push_record_def
        qsbr_barrier_def qsbr_get_epoch_def tls_record_def)
  have "qsbr_sync s 1 3 = None"
    using f by (intro self_loop_sync [of s 1 1 "\<lparr>local_epoch = 0, next = Some 1\<rparr>"]) simp_all
  moreover have "map_option (\<lambda>s. qsbr_get_epoch s 1)
     (run (the (qsbr_create True True))
        [Register 0 (Some 0), Register 1 (Some 1), Register 2 (Some 2), Unregister 2])
     = Some (Inr 0)"
    by (simp add: qsbr_create_def calloc_qsbr_def qsbr_register_def push_record_def
        qsbr_unregister_def returned_def qsbr_get_epoch_def tls_record_def)
  moreover have "map_option (\<lambda>s. qsbr_sync s 0 3)
     (run (the (qsbr_create True True))
        [Register 0 (Some 0), Register 1 (Some 1), Register 2 (Some 2), Unregister 2])
     = Some (Some (Inl MemFault))"
    by (simp add: qsbr_create_def calloc_qsbr_def qsbr_register_def push_record_def
        qsbr_unregister_def returned_def qsbr_sync_def qsbr_checkpoint_def tls_record_def
        sync_scan.simps)
  ultimately show ?thesis using r f by simp
qed

text \<open>The keys of a fresh instance are sound.\<close>

lemma keys_ok_fresh: "qsbr_create True True = Some s \<Longrightarrow> keys_ok s"
  by (auto simp: qsbr_create_def calloc_qsbr_def keys_ok_def)

lemma keys_ok_global: "keys_ok (s\<lparr>global_epoch := g\<rparr>) = keys_ok s"
  by (simp add: keys_ok_def)

lemma keys_ok_shape:
  assumes k: "keys_ok s"
    and sh: "\<exists>tu r e. tls_key s u = Some tu \<and> heap s tu = Some r
           \<and> s' = s\<lparr>heap := (heap s)(tu \<mapsto> r\<lparr>local_epoch := e\<rparr>)\<rparr>"
  shows "keys_ok s'"
proof -
  from sh obtain tu r e where s': "s' = s\<lparr>heap := (heap s)(tu \<mapsto> r\<lparr>local_epoch := e\<rparr>)\<rparr>"
    by blast
  show ?thesis
    unfolding keys_ok_def
  proof (intro conjI allI impI)
    fix v p assume "tls_key s' v = Some p"
    then have "tls_key s v = Some p" by (simp add: s')
    then have "heap s p \<noteq> None" by (rule keys_okD(1) [OF k])
    then show "heap s' p \<noteq> None" by (simp add: s')
  next
    fix v v' p assume "tls_key s' v = Some p \<and> tls_key s' v' = Some p"
    then have "tls_key s v = Some p" "tls_key s v' = Some p" by (simp_all add: s')
    then show "v = v'" by (rule keys_okD(2) [OF k])
  qed
qed

lemma keys_ok_sync:
  assumes "keys_ok s" and "qsbr_sync s u target = Some (Inr (b, s'))"
  shows "keys_ok s'"
proof -
  from assms(2) have "qsbr_checkpoint s u = Inr s'"
    by (auto simp: qsbr_sync_def split: sum.splits option.splits)
  then show ?thesis using assms(1) qsbr_checkpoint_shape keys_ok_shape by blast
qed

lemma keys_ok_wait_loop:
  assumes "wait_loop s u e = Some x"
  shows "keys_ok s \<longrightarrow> (\<forall>s'. x = Inr s' \<longrightarrow> keys_ok s')"
  using assms
proof (induction rule: wait_loop.raw_induct [rotated 1, consumes 1])
  case (1 wl s u e x)
  show ?case
  proof (intro impI allI)
    fix s' assume pre: "keys_ok s" and x: "x = Inr s'"
    show "keys_ok s'"
    proof (cases "qsbr_sync s u e")
      case None
      with 1(2) show ?thesis by simp
    next
      case (Some y)
      show ?thesis
      proof (cases y)
        case (Inl er)
        have "x = Inl er" using 1(2) unfolding Some Inl by simp
        with x show ?thesis by simp
      next
        case (Inr bs)
        obtain b s1 where bs: "bs = (b, s1)" by (cases bs)
        have sy: "qsbr_sync s u e = Some (Inr (b, s1))"
          by (simp add: Some Inr bs)
        have f1: "keys_ok s1"
          using pre sy by (rule keys_ok_sync)
        have body: "(if b then Some (Inr s1) else wl s1 u e) = Some x"
          using 1(2) unfolding Some Inr bs by simp
        show ?thesis
        proof (cases b)
          case True
          with body x have "s' = s1" by simp
          then show ?thesis using f1 by simp
        next
          case False
          with body have w: "wl s1 u e = Some x" by simp
          from 1(1) [OF w] f1 x show ?thesis by blast
        qed
      qed
    qed
  qed
qed

lemma keys_ok_unregister:
  assumes k: "keys_ok s" and un: "qsbr_unregister s u = Inr s'"
  shows "keys_ok s'"
proof (cases "tls_key s u")
  case None
  then have "s' = s" using un by (simp add: qsbr_unregister_def)
  then show ?thesis using k by simp
next
  case (Some t)
  then have s': "s' = s\<lparr>tls_key := (tls_key s)(u := None), heap := (heap s)(t := None)\<rparr>"
    using un by (auto simp: qsbr_unregister_def split: option.splits)
  show ?thesis
    unfolding keys_ok_def
  proof (intro conjI allI impI)
    fix v p assume vp: "tls_key s' v = Some p"
    then have vu: "v \<noteq> u" by (auto simp: s')
    then have kv: "tls_key s v = Some p" using vp by (simp add: s')
    have "p \<noteq> t"
    proof
      assume "p = t"
      then have "v = u" using keys_okD(2) [OF k kv, of u] Some by blast
      then show False using vu by simp
    qed
    moreover have "heap s p \<noteq> None" using kv by (rule keys_okD(1) [OF k])
    ultimately show "heap s' p \<noteq> None" by (simp add: s')
  next
    fix v v' p assume both: "tls_key s' v = Some p \<and> tls_key s' v' = Some p"
    then have "v \<noteq> u" "v' \<noteq> u" by (auto simp: s')
    then have "tls_key s v = Some p" "tls_key s v' = Some p" using both by (simp_all add: s')
    then show "v = v'" by (rule keys_okD(2) [OF k])
  qed
qed

text \<open>
  Sound keys stay sound under every call that returns, if \<^verbatim>\<open>malloc\<close> returns memory
  that is not allocated.
\<close>

lemma keys_ok_exec:
  assumes k: "keys_ok s" and ex: "exec s c = Some s'"
    and fresh: "\<forall>u a. c = Register u (Some a) \<longrightarrow> heap s a = None"
  shows "keys_ok s'"
proof (cases c)
  case (Register u m)
  show ?thesis
  proof (cases "qsbr_register s u m")
    case (Inl e)
    then have "s' = s" using ex Register by (auto split: if_splits)
    then show ?thesis using k by simp
  next
    case (Inr s1)
    then have "s' = s1" using ex Register by simp
    moreover have "\<forall>a. m = Some a \<longrightarrow> heap s a = None" using fresh Register by simp
    ultimately show ?thesis
      using fresh_linked_register [OF k _ Inr] by (auto simp: fresh_linked_def)
  qed
next
  case (Unregister u)
  then have "qsbr_unregister s u = Inr s'"
    using ex by (auto simp: returned_def split: sum.splits)
  with k show ?thesis by (rule keys_ok_unregister)
next
  case (Checkpoint u)
  then have "qsbr_checkpoint s u = Inr s'"
    using ex by (auto simp: returned_def split: sum.splits)
  from keys_ok_shape [OF k qsbr_checkpoint_shape [OF this]] show ?thesis .
next
  case (GetEpoch u)
  then have "s' = s" using ex by (auto split: sum.splits)
  then show ?thesis using k by simp
next
  case Barrier
  then have "s' = s\<lparr>global_epoch := global_epoch s + 1\<rparr>"
    using ex by (simp add: qsbr_barrier_def Let_def)
  then show ?thesis using k by (simp only: keys_ok_global)
next
  case (Wait u)
  then have "qsbr_wait s u = Some (Inr s')"
    using ex by (auto simp: returned_def split: option.splits sum.splits)
  then have w: "wait_loop (s\<lparr>global_epoch := global_epoch s + 1\<rparr>) u (global_epoch s + 1)
      = Some (Inr s')"
    by (simp add: qsbr_wait_def qsbr_barrier_def Let_def)
  have "keys_ok (s\<lparr>global_epoch := global_epoch s + 1\<rparr>)"
    using k by (simp only: keys_ok_global)
  with keys_ok_wait_loop [OF w] show ?thesis by blast
next
  case (Sync u target)
  then obtain b where "qsbr_sync s u target = Some (Inr (b, s'))"
    using ex by (auto split: option.splits sum.splits)
  with k show ?thesis by (rule keys_ok_sync)
next
  case (ThreadOffline u)
  then have "qsbr_thread_offline s u = Inr s'"
    using ex by (auto simp: returned_def split: sum.splits)
  from keys_ok_shape [OF k qsbr_thread_offline_shape [OF this]] show ?thesis .
next
  case (ThreadOnline u)
  then have "qsbr_thread_online s u = Inr s'"
    using ex by (auto simp: returned_def split: sum.splits)
  from keys_ok_shape [OF k qsbr_thread_online_shape [OF this]] show ?thesis .
qed

section \<open>The scan on a registry that is not a proper list\<close>

text \<open>
  The claim about \<^verbatim>\<open>qsbr_sync\<close> as it was stated, for every state, fails on states that
  the interface produces.  Thread 0 registers twice on a fresh instance: its record is the head and
  points to itself.  Called by thread 0 with target 2, \<^verbatim>\<open>qsbr_sync\<close> stores the
  global epoch 2 in the record, so that every record of the registry has reached the
  target, and then does not return.  And in the example state, after thread 1 has
  unregistered, \<^verbatim>\<open>qsbr_sync\<close> called by thread 0 reads freed memory.
\<close>

theorem qsbr_sync_any_state_counterexample:
  "map_option (\<lambda>s. (list_head s, heap s 0, global_epoch s))
     (run (the (qsbr_create True True)) [Register 0 (Some 0), Register 0 None])
     = Some (Some 0, Some \<lparr>local_epoch = 0, next = Some 0\<rparr>, 2)
   \<and> map_option (\<lambda>s. qsbr_sync s 0 2)
     (run (the (qsbr_create True True)) [Register 0 (Some 0), Register 0 None]) = Some None
   \<and> map_option (\<lambda>s. qsbr_sync s 0 3) (run ex_two [Unregister 1]) = Some (Some (Inl MemFault))"
proof -
  obtain s where r: "run (the (qsbr_create True True)) [Register 0 (Some 0), Register 0 None]
      = Some s"
    and f: "tls_key s 0 = Some 0" "heap s 0 = Some \<lparr>local_epoch = 0, next = Some 0\<rparr>"
      "list_head s = Some 0" "global_epoch s = 2"
    by (simp add: qsbr_create_def calloc_qsbr_def qsbr_register_def push_record_def)
  have "qsbr_sync s 0 2 = None"
    using f by (intro self_loop_sync [of s 0 0 "\<lparr>local_epoch = 0, next = Some 0\<rparr>"]) simp_all
  moreover have "map_option (\<lambda>s. qsbr_sync s 0 3) (run ex_two [Unregister 1])
      = Some (Some (Inl MemFault))"
    by (simp add: ex_two_def qsbr_unregister_def returned_def qsbr_sync_def
        qsbr_checkpoint_def tls_record_def sync_scan.simps)
  ultimately show ?thesis using r f by simp
qed

end
